theory Spec2Isabelle
  imports Main "HOL-Library.Word" "HOL-Library.Signed_Division"
begin

unbundle bit_operations_syntax

section \<open>The machine the allocator runs on\<close>

text \<open>
  \<^verbatim>\<open>allocator.c\<close> is written for an LP64 little-endian machine (x86-64 Linux):
  \<^verbatim>\<open>size_t\<close>, \<^verbatim>\<open>intptr_t\<close> and every pointer are 64-bit words, \<^verbatim>\<open>int\<close> is a
  32-bit word. Memory is an array of bytes indexed by address; a multi-byte access reads or
  writes consecutive bytes, least significant first. The functions of the
  allocator are given twice where a property depends on which addresses are mapped: first
  over a memory in which every address can be read and written, then with the readable and
  the writable addresses as parameters and a trap on every access outside them.
\<close>

type_synonym addr = "64 word"
type_synonym memory = "addr \<Rightarrow> 8 word"

abbreviation (input) NULL :: addr where
  "NULL \<equiv> 0"

definition store64 :: "memory \<Rightarrow> addr \<Rightarrow> 64 word \<Rightarrow> memory" where
  "store64 m a v = (\<lambda>x. if x - a < 8 then ucast (drop_bit (8 * unat (x - a)) v) else m x)"

definition store32 :: "memory \<Rightarrow> addr \<Rightarrow> 32 word \<Rightarrow> memory" where
  "store32 m a v = (\<lambda>x. if x - a < 4 then ucast (drop_bit (8 * unat (x - a)) v) else m x)"

definition load64 :: "memory \<Rightarrow> addr \<Rightarrow> 64 word" where
  "load64 m a = horner_sum ucast 256 (map (\<lambda>i. m (a + of_nat i)) [0..<8])"

definition load32 :: "memory \<Rightarrow> addr \<Rightarrow> 32 word" where
  "load32 m a = horner_sum ucast 256 (map (\<lambda>i. m (a + of_nat i)) [0..<4])"

text \<open>
  C's \<^verbatim>\<open>%\<close> on two signed operands truncates towards zero. \<^verbatim>\<open>cast_ptr % PAGE_SIZE\<close> has
  an \<^verbatim>\<open>intptr_t\<close> on the left and an \<^verbatim>\<open>int\<close> constant on the right, so it is this signed
  remainder, computed on the signed reading of the pointer.
\<close>

definition srem :: "64 word \<Rightarrow> 64 word \<Rightarrow> 64 word" where
  "srem a b = word_of_int (sint a smod sint b)"

section \<open>Constants and macros\<close>

abbreviation (input) MIN_MALLOC_SIZE :: "64 word" where
  "MIN_MALLOC_SIZE \<equiv> 16"

definition ROUND_UP :: "64 word \<Rightarrow> 64 word \<Rightarrow> 64 word" where
  "ROUND_UP x y = (if x mod y = 0 then x else x + (y - x mod y))"

abbreviation (input) PAGE_SIZE :: "64 word" where
  "PAGE_SIZE \<equiv> 0x1000"

abbreviation (input) MAGIC :: "32 word" where
  "MAGIC \<equiv> 12073110"

text \<open>\<^verbatim>\<open>MAP_FAILED\<close> is \<^verbatim>\<open>(void *) -1\<close>.\<close>

abbreviation (input) MAP_FAILED :: addr where
  "MAP_FAILED \<equiv> - 1"

section \<open>Program state, environment and outcomes\<close>

text \<open>
  The global \<^verbatim>\<open>lists[8]\<close> and the memory are the allocator's state. The array is a function
  from the index to the entry; the code's accesses check the index against the array's 8
  entries. \<open>stderr_writes\<close> records the buffers handed to \<^verbatim>\<open>write(STDERR_FILENO, ...)\<close>,
  in order.
\<close>

record state =
  lists :: "nat \<Rightarrow> addr"
  mem :: memory
  stderr_writes :: "string list"

text \<open>
  What the operating system answers during one call: the value \<^verbatim>\<open>mmap\<close> returns and the
  value \<^verbatim>\<open>write\<close> returns. \<^verbatim>\<open>xxmalloc\<close> calls \<^verbatim>\<open>mmap\<close> at most once.
\<close>

record env =
  mmap_ret :: addr
  write_ret :: "64 word"

text \<open>
  A call returns a value, terminates the process through \<^verbatim>\<open>exit\<close> (with the status and the
  state at that point), runs forever, or faults: it has undefined behaviour (an index outside
  \<^verbatim>\<open>lists\<close>, a division by zero) or is killed by the trap of an access to memory that is
  not mapped (\<^verbatim>\<open>SIGSEGV\<close>).
\<close>

datatype 'a outcome = Returns 'a | Exits nat state | Diverges | Fault

fun outcome_bind :: "'a outcome \<Rightarrow> ('a \<Rightarrow> 'b outcome) \<Rightarrow> 'b outcome" where
  "outcome_bind (Returns x) f = f x"
| "outcome_bind (Exits c s) f = Exits c s"
| "outcome_bind Diverges f = Diverges"
| "outcome_bind Fault f = Fault"

definition init_state :: state where
  "init_state = \<lparr>lists = (\<lambda>_. NULL), mem = (\<lambda>_. 0), stderr_writes = []\<rparr>"

text \<open>
  \<^verbatim>\<open>mmap(NULL, len, PROT_READ | PROT_WRITE, MAP_ANONYMOUS | MAP_PRIVATE, -1, 0)\<close>: on
  success the new mapping \<open>[p, p + len)\<close> reads as zero, the rest of memory is as before.
\<close>

definition mmap_anon :: "env \<Rightarrow> 64 word \<Rightarrow> memory \<Rightarrow> addr \<times> memory" where
  "mmap_anon e len m =
     (if mmap_ret e = MAP_FAILED then (MAP_FAILED, m)
      else (mmap_ret e, \<lambda>x. if x - mmap_ret e < len then 0 else m x))"

section \<open>The source functions\<close>

subsection \<open>\<^verbatim>\<open>round_power_2\<close>\<close>

text \<open>
  The loop doubles \<open>accum\<close> in a \<^verbatim>\<open>size_t\<close>: for \<open>x\<close> above \<open>2 ^ 63\<close> it wraps to 0 and never
  ends, so the loop is a partial function and \<open>None\<close> is "does not return".
\<close>

partial_function (option) round_power_2_loop :: "64 word \<Rightarrow> 64 word \<Rightarrow> 64 word \<Rightarrow> 64 word option" where
  "round_power_2_loop accum i x =
     (if accum < x then round_power_2_loop (accum * 2) (i + 1) x else Some i)"

definition round_power_2 :: "64 word \<Rightarrow> 64 word option" where
  "round_power_2 x = map_option (\<lambda>i. i + 4) (round_power_2_loop 16 0 x)"

subsection \<open>\<^verbatim>\<open>log_message\<close>\<close>

text \<open>
  \<open>message\<close> is the C string without its terminating NUL; the first loop computes its
  length. \<^verbatim>\<open>sizeof(fail_msg)\<close> counts the NUL, so the second write hands it over too.
\<close>

definition log_message :: "env \<Rightarrow> string \<Rightarrow> state \<Rightarrow> state outcome" where
  "log_message e message s =
     (let len = (of_nat (length message) :: 64 word);
          s1 = s\<lparr>stderr_writes := stderr_writes s @ [message]\<rparr>
      in if write_ret e \<noteq> len
         then Exits 2 (s1\<lparr>stderr_writes := stderr_writes s1 @ [''logging failed\<newline>'' @ [CHR 0x00]]\<rparr>)
         else Returns s1)"

subsection \<open>\<^verbatim>\<open>xxmalloc_usable_size\<close>\<close>

text \<open>
  \<^verbatim>\<open>header_t\<close> is \<^verbatim>\<open>{ int magic; size_t size; }\<close>: \<open>magic\<close> is the 4 bytes at offset 0,
  \<open>size\<close> the 8 bytes at offset 8.
\<close>

definition page_of :: "addr \<Rightarrow> addr" where
  "page_of p = p - srem p PAGE_SIZE"

definition xxmalloc_usable_size :: "addr \<Rightarrow> state \<Rightarrow> 64 word" where
  "xxmalloc_usable_size ptr s =
     (if ptr = NULL then 0
      else let p = ptr; page = page_of p
           in if load32 (mem s) page \<noteq> MAGIC then 0
              else load64 (mem s) (page + 8))"

subsection \<open>\<^verbatim>\<open>xxmalloc\<close>\<close>

text \<open>
  The \<^verbatim>\<open>for\<close> loop of lines 105-119: \<open>i\<close> and \<open>n\<close> are C \<^verbatim>\<open>int\<close>s that stay within
  \<open>[0, 4096]\<close>, modelled as integers; \<^verbatim>\<open>i * block_size + p\<close> is computed in \<^verbatim>\<open>size_t\<close>.
\<close>

function carve_loop :: "addr \<Rightarrow> 64 word \<Rightarrow> int \<Rightarrow> int \<Rightarrow> memory \<Rightarrow> memory" where
  "carve_loop p block_size n i m =
     (if i < n then
        let p2 = of_int i * block_size + p;
            m1 = store64 m p2 (p2 + block_size);
            m2 = (if i = n - 1 then store64 m1 p2 NULL else m1)
        in carve_loop p block_size n (i + 1) m2
      else m)"
  by pat_completeness auto
termination
  by (relation "measure (\<lambda>(p, block_size, n, i, m). nat (n - i))") auto

declare carve_loop.simps [simp del]

text \<open>
  Lines 91-126, the body of \<^verbatim>\<open>if (list == NULL)\<close>: map one page, thread blocks
  \<open>1 .. n - 1\<close>, write the header into block 0, install the list. \<open>idx\<close> is
  \<^verbatim>\<open>list_index - 4\<close>.
\<close>

definition carve :: "env \<Rightarrow> nat \<Rightarrow> 64 word \<Rightarrow> state \<Rightarrow> state outcome" where
  "carve e idx block_size s =
     (let (p, m) = mmap_anon e PAGE_SIZE (mem s)
      in if p = MAP_FAILED
         then outcome_bind (log_message e ''mmap failed\<newline>'' s) (\<lambda>s1. Exits 2 s1)
         else if block_size = 0 then Fault
         else let n = sint (ucast (PAGE_SIZE div block_size) :: 32 word);
                  m1 = carve_loop p block_size n 1 m;
                  m2 = store32 m1 p MAGIC;
                  m3 = store64 m2 (p + 8) block_size
              in Returns (s\<lparr>lists := (lists s)(idx := p + block_size), mem := m3\<rparr>))"

text \<open>
  \<open>sz\<close> is the parameter \<^verbatim>\<open>size\<close>, \<open>size'\<close> its rounded value.
  \<^verbatim>\<open>1 << list_index\<close> is an \<^verbatim>\<open>int\<close> shift, converted to \<^verbatim>\<open>size_t\<close>. An index outside
  \<^verbatim>\<open>lists[0..7]\<close> is undefined behaviour.
\<close>

definition xxmalloc :: "env \<Rightarrow> 64 word \<Rightarrow> state \<Rightarrow> (addr \<times> state) outcome" where
  "xxmalloc e sz s =
     (if sz > 2048 then
        let size' = ROUND_UP sz PAGE_SIZE;
            (p, m) = mmap_anon e size' (mem s)
        in if p = MAP_FAILED
           then outcome_bind (log_message e ''mmap failed! Giving up.\<newline>'' s) (\<lambda>s1. Exits 2 s1)
           else Returns (p, s\<lparr>mem := m\<rparr>)
      else
        case round_power_2 sz of
          None \<Rightarrow> Diverges
        | Some list_index \<Rightarrow>
            if \<not> list_index - 4 < 8 then Fault
            else
              let idx = unat (list_index - 4);
                  list = lists s idx;
                  block_size = (scast (push_bit (unat list_index) (1 :: 32 word)) :: 64 word)
              in outcome_bind
                   (if list = NULL then carve e idx block_size s else Returns s)
                   (\<lambda>s1. let list = lists s1 idx;
                              block = list
                          in Returns (block, s1\<lparr>lists := (lists s1)(idx := load64 (mem s1) block)\<rparr>)))"

subsection \<open>\<^verbatim>\<open>xxfree\<close>\<close>

text \<open>
  The \<^verbatim>\<open>while (start != 16)\<close> loop works on \<^verbatim>\<open>int\<close>s; \<^verbatim>\<open>>>\<close> on a signed \<^verbatim>\<open>int\<close> is the
  arithmetic shift. From a start value that never reaches 16 it runs forever.
\<close>

partial_function (option) xxfree_loop :: "32 word \<Rightarrow> 32 word \<Rightarrow> 32 word option" where
  "xxfree_loop start accum =
     (if start \<noteq> 16 then xxfree_loop (signed_drop_bit 1 start) (accum + 1) else Some accum)"

definition xxfree :: "addr \<Rightarrow> state \<Rightarrow> state outcome" where
  "xxfree ptr s =
     (if ptr = NULL then Returns s
      else
        let cast_ptr = ptr;
            page = page_of cast_ptr
        in if load32 (mem s) page \<noteq> MAGIC then Returns s
           else
             let block_size = xxmalloc_usable_size ptr s
             in if block_size = 0 then Returns s
                else
                  case xxfree_loop (ucast block_size) 0 of
                    None \<Rightarrow> Diverges
                  | Some accum \<Rightarrow>
                      let p = ptr - ptr mod block_size
                      in if \<not> (0 \<le>s accum \<and> accum <s 8) then Fault
                         else
                           let list = lists s (unat accum);
                               cur = list
                           in Returns (s\<lparr>lists := (lists s)(unat accum := p),
                                         mem := store64 (mem s) p cur\<rparr>))"

subsection \<open>Accesses to memory that is not mapped\<close>

text \<open>
  \<^verbatim>\<open>xxmalloc_usable_size\<close> and \<^verbatim>\<open>xxfree\<close> dereference \<^verbatim>\<open>page\<close> before they know whose page
  it is, and the operating system kills the process when the bytes accessed are not mapped.
  \<open>R\<close> holds the addresses that can be read and \<open>W\<close> those that can be written; the global
  \<^verbatim>\<open>lists\<close> is always accessible. The functions below are the two above with every access
  to memory checked, in the order of the source: \<^verbatim>\<open>page->magic\<close> (4 bytes at offset 0),
  \<^verbatim>\<open>page->size\<close> (8 bytes at offset 8) and, in \<^verbatim>\<open>xxfree\<close>, the write of \<^verbatim>\<open>p->next\<close>
  (8 bytes), which comes after the assignment to \<^verbatim>\<open>lists[accum]\<close>.
\<close>

type_synonym access = "addr \<Rightarrow> bool"

definition accessible :: "access \<Rightarrow> addr \<Rightarrow> nat \<Rightarrow> bool" where
  "accessible A a n \<longleftrightarrow> list_all (\<lambda>i. A (a + of_nat i)) [0..<n]"

definition xxmalloc_usable_size_mapped :: "access \<Rightarrow> addr \<Rightarrow> state \<Rightarrow> 64 word outcome" where
  "xxmalloc_usable_size_mapped R ptr s =
     (if ptr = NULL then Returns 0
      else let p = ptr; page = page_of p
           in if \<not> accessible R page 4 then Fault
              else if load32 (mem s) page \<noteq> MAGIC then Returns 0
              else if \<not> accessible R (page + 8) 8 then Fault
              else Returns (load64 (mem s) (page + 8)))"

definition xxfree_mapped :: "access \<Rightarrow> access \<Rightarrow> addr \<Rightarrow> state \<Rightarrow> state outcome" where
  "xxfree_mapped R W ptr s =
     (if ptr = NULL then Returns s
      else
        let cast_ptr = ptr;
            page = page_of cast_ptr
        in if \<not> accessible R page 4 then Fault
           else if load32 (mem s) page \<noteq> MAGIC then Returns s
           else
             outcome_bind (xxmalloc_usable_size_mapped R ptr s)
               (\<lambda>block_size.
                  if block_size = 0 then Returns s
                  else
                    case xxfree_loop (ucast block_size) 0 of
                      None \<Rightarrow> Diverges
                    | Some accum \<Rightarrow>
                        let p = ptr - ptr mod block_size
                        in if \<not> (0 \<le>s accum \<and> accum <s 8) then Fault
                           else
                             let list = lists s (unat accum);
                                 cur = list
                             in if \<not> accessible W p 8 then Fault
                                else Returns (s\<lparr>lists := (lists s)(unat accum := p),
                                                 mem := store64 (mem s) p cur\<rparr>)))"

text \<open>
  The addresses of the mapping a successful \<^verbatim>\<open>mmap\<close> of \<open>len\<close> bytes makes; it is readable
  and writable (\<^verbatim>\<open>PROT_READ | PROT_WRITE\<close>).
\<close>

definition mmap_region :: "env \<Rightarrow> 64 word \<Rightarrow> access" where
  "mmap_region e len = (\<lambda>x. mmap_ret e \<noteq> MAP_FAILED \<and> x - mmap_ret e < len)"

section \<open>Vocabulary of the properties\<close>

text \<open>
  The eight size classes: class \<open>k\<close> has blocks of \<open>2 ^ (k + 4)\<close> bytes, from 16 to 2048.
  \<open>size_class\<close> is the classifier as the specification words it: the index of the smallest
  class that holds \<open>max(size, 16)\<close> bytes.
\<close>

definition class_size :: "nat \<Rightarrow> 64 word" where
  "class_size k = 2 ^ (k + 4)"

definition size_class :: "64 word \<Rightarrow> nat" where
  "size_class x =
     (if x \<le> 16 then 0 else if x \<le> 32 then 1 else if x \<le> 64 then 2
      else if x \<le> 128 then 3 else if x \<le> 256 then 4 else if x \<le> 512 then 5
      else if x \<le> 1024 then 6 else 7)"

text \<open>The page that contains an address, and what it means for it to carry a slab header.\<close>

definition page_base :: "addr \<Rightarrow> addr" where
  "page_base a = a - a mod PAGE_SIZE"

definition slab_header :: "memory \<Rightarrow> addr \<Rightarrow> 64 word \<Rightarrow> bool" where
  "slab_header m pg bs \<longleftrightarrow> load32 m pg = MAGIC \<and> load64 m (pg + 8) = bs"

text \<open>The nodes of a free list: what following \<^verbatim>\<open>next\<close> from the head reaches before \<^verbatim>\<open>NULL\<close>.\<close>

inductive_set nodes_from :: "memory \<Rightarrow> addr \<Rightarrow> addr set" for m :: memory and h :: addr where
  head: "h \<noteq> NULL \<Longrightarrow> h \<in> nodes_from m h"
| step: "a \<in> nodes_from m h \<Longrightarrow> load64 m a \<noteq> NULL \<Longrightarrow> load64 m a \<in> nodes_from m h"

text \<open>
  What lines 93-125 leave in memory when \<^verbatim>\<open>mmap\<close> returned \<open>p\<close> for class \<open>k\<close>: the zero-filled
  page, threaded by the loop, with the header written last.
\<close>

definition carved_mem :: "addr \<Rightarrow> nat \<Rightarrow> memory \<Rightarrow> memory" where
  "carved_mem p k m =
     store64 (store32 (carve_loop p (class_size k) (2 ^ (8 - k)) 1
                         (\<lambda>x. if x - p < PAGE_SIZE then 0 else m x)) p MAGIC)
       (p + 8) (class_size k)"

section \<open>Well-formed states\<close>

text \<open>
  A free-list node of class \<open>k\<close> is in order when it lies in the lower half of the address
  space, is a multiple of the class's block size, is not the first block of its page, and its
  page carries the header of class \<open>k\<close>. A state is well formed when every node of every list
  is in order and every page that starts with the tag records one of the eight class sizes.
  \<open>lists_agree\<close> is the part of it that relates the table to the headers.
\<close>

definition node_ok :: "memory \<Rightarrow> nat \<Rightarrow> addr \<Rightarrow> bool" where
  "node_ok m k a \<longleftrightarrow>
     0 \<le>s a \<and> a mod class_size k = 0 \<and> a mod PAGE_SIZE \<noteq> 0
     \<and> slab_header m (page_base a) (class_size k)"

definition wf_state :: "state \<Rightarrow> bool" where
  "wf_state s \<longleftrightarrow>
     (\<forall>k<8. \<forall>a\<in>nodes_from (mem s) (lists s k). node_ok (mem s) k a)
     \<and> (\<forall>pg. pg mod PAGE_SIZE = 0 \<and> load32 (mem s) pg = MAGIC \<longrightarrow>
            (\<exists>k<8. load64 (mem s) (pg + 8) = class_size k))"

definition lists_agree :: "state \<Rightarrow> bool" where
  "lists_agree s \<longleftrightarrow>
     (\<forall>k<8. \<forall>a\<in>nodes_from (mem s) (lists s k).
        slab_header (mem s) (page_base a) (class_size k))"

text \<open>Two memories that hold the same bytes throughout the page at \<open>pg\<close>.\<close>

definition agree_on_page :: "memory \<Rightarrow> memory \<Rightarrow> addr \<Rightarrow> bool" where
  "agree_on_page m m' pg \<longleftrightarrow> (\<forall>x. x - pg < PAGE_SIZE \<longrightarrow> m' x = m x)"

text \<open>
  What is assumed of the page source: \<^verbatim>\<open>mmap\<close> returns page-aligned addresses in the lower
  half of the address space, and a new mapping overlaps no page that holds a free block.
  \<open>mapping_length\<close> is the length \<^verbatim>\<open>xxmalloc\<close> asks for.
\<close>

definition mmap_ok :: "env \<Rightarrow> bool" where
  "mmap_ok e \<longleftrightarrow> mmap_ret e mod PAGE_SIZE = 0 \<and> 0 \<le>s mmap_ret e"

definition mapping_length :: "64 word \<Rightarrow> 64 word" where
  "mapping_length sz = (if 2048 < sz then ROUND_UP sz PAGE_SIZE else PAGE_SIZE)"

definition fresh_mapping :: "env \<Rightarrow> 64 word \<Rightarrow> state \<Rightarrow> bool" where
  "fresh_mapping e len s \<longleftrightarrow>
     (\<forall>k<8. \<forall>a\<in>nodes_from (mem s) (lists s k).
        \<forall>x. x - page_base a < PAGE_SIZE \<longrightarrow> len \<le> x - mmap_ret e)"

text \<open>A pointer into block 0 of a slab page, the block that holds the header.\<close>

definition header_block :: "state \<Rightarrow> addr \<Rightarrow> bool" where
  "header_block s ptr \<longleftrightarrow>
     ptr \<noteq> NULL \<and> load32 (mem s) (page_base ptr) = MAGIC
     \<and> ptr mod PAGE_SIZE < load64 (mem s) (page_base ptr + 8)"

text \<open>
  The states a process reaches from its start by calls of \<^verbatim>\<open>xxmalloc\<close> that return and calls
  of \<^verbatim>\<open>xxfree\<close> on pointers of the lower half that do not point into a header block.
\<close>

inductive reachable :: "state \<Rightarrow> bool" where
  start: "reachable init_state"
| malloc: "reachable s \<Longrightarrow> mmap_ok e \<Longrightarrow> fresh_mapping e (mapping_length sz) s
           \<Longrightarrow> xxmalloc e sz s = Returns (a, s') \<Longrightarrow> reachable s'"
| free: "reachable s \<Longrightarrow> 0 \<le>s ptr \<Longrightarrow> \<not> header_block s ptr
           \<Longrightarrow> xxfree ptr s = Returns s' \<Longrightarrow> reachable s'"

section \<open>Concrete inputs\<close>

text \<open>
  Environments in which \<^verbatim>\<open>mmap\<close> succeeds at \<open>0x10000\<close> and at \<open>0x20000\<close>, one in which it
  fails, and the
  state \<^verbatim>\<open>xxmalloc(2048)\<close> leaves when it runs first in a fresh process: one slab page of
  class 7 at \<open>0x10000\<close>, whose only block has been handed out.
\<close>

definition example_env :: env where
  "example_env = \<lparr>mmap_ret = 0x10000, write_ret = 0\<rparr>"

definition second_env :: env where
  "second_env = \<lparr>mmap_ret = 0x20000, write_ret = 0\<rparr>"

definition failing_env :: env where
  "failing_env = \<lparr>mmap_ret = MAP_FAILED, write_ret = 12\<rparr>"

text \<open>
  The state \<^verbatim>\<open>xxmalloc(3000)\<close> leaves when it runs first in a fresh process: one zero-filled
  mapping of a page at \<open>0x10000\<close>, without a header. \<open>unmapped\<close> is the data memory of a
  fresh process as far as the allocator made it: no mapping yet.
\<close>

definition example_large :: state where
  "example_large =
     init_state\<lparr>mem := \<lambda>x. if x - 0x10000 < ROUND_UP 3000 PAGE_SIZE then 0 else mem init_state x\<rparr>"

definition unmapped :: access where
  "unmapped = (\<lambda>_. False)"

definition example_slab :: state where
  "example_slab =
     \<lparr>lists = (\<lambda>_. NULL),
      mem = store64 (store32 (store64 (store64 (\<lambda>_. 0) 0x10800 0x11000) 0x10800 NULL) 0x10000 MAGIC)
              0x10008 2048,
      stderr_writes = []\<rparr>"


section \<open>Slab pages and free lists\<close>

text \<open>
  Block \<open>j\<close> of the page at \<open>p\<close> cut into blocks of \<open>bs\<close> bytes, and a free list spelled out:
  \<open>chain m h as\<close> says that following \<^verbatim>\<open>next\<close> from \<open>h\<close> visits exactly the addresses \<open>as\<close>, in
  this order, and then reaches \<^verbatim>\<open>NULL\<close>.
\<close>

definition block_at :: "addr \<Rightarrow> 64 word \<Rightarrow> nat \<Rightarrow> addr" where
  "block_at p bs j = p + of_nat j * bs"

fun chain :: "memory \<Rightarrow> addr \<Rightarrow> addr list \<Rightarrow> bool" where
  "chain m h [] \<longleftrightarrow> h = NULL"
| "chain m h (a # as) \<longleftrightarrow> h = a \<and> a \<noteq> NULL \<and> chain m (load64 m a) as"

text \<open>
  What \<^verbatim>\<open>xxfree(0x10004)\<close> makes of \<open>example_slab\<close>: the pointer lies in the header block of the
  slab page, so the page start itself is pushed on the list of class 7 and its first 8 bytes,
  the tag among them, are overwritten with the old list head.
\<close>

definition corrupted_slab :: state where
  "corrupted_slab =
     example_slab\<lparr>lists := (lists example_slab)(7 := 0x10000),
                   mem := store64 (mem example_slab) 0x10000 NULL\<rparr>"

section \<open>Proofs\<close>

subsection \<open>Word arithmetic through the naturals\<close>

lemma unat_sub64:
  "unat (x - y :: 64 word) =
     (if unat y \<le> unat x then unat x - unat y else unat x + 18446744073709551616 - unat y)"
  using unat_sub_if_size[of x y] by (simp add: word_size)

lemma unat_add64:
  "unat (x + y :: 64 word) =
     (if unat x + unat y < 18446744073709551616 then unat x + unat y
      else unat x + unat y - 18446744073709551616)"
  using unat_plus_if_size[of x y] by (simp add: word_size)

lemma unat_lt64: "unat (x :: 64 word) < 18446744073709551616"
  using unsigned_less[of x, where 'a=nat] by simp

subsection \<open>The two loops\<close>

lemma round_power_2_loop_step:
  "accum < x \<Longrightarrow> round_power_2_loop accum i x = round_power_2_loop (accum * 2) (i + 1) x"
  by (subst round_power_2_loop.simps) simp

lemma round_power_2_loop_stop:
  "\<not> accum < x \<Longrightarrow> round_power_2_loop accum i x = Some i"
  by (subst round_power_2_loop.simps) simp

lemma round_power_2_cases:
  "x \<le> 16 \<Longrightarrow> round_power_2 x = Some 4"
  "16 < x \<Longrightarrow> x \<le> 32 \<Longrightarrow> round_power_2 x = Some 5"
  "32 < x \<Longrightarrow> x \<le> 64 \<Longrightarrow> round_power_2 x = Some 6"
  "64 < x \<Longrightarrow> x \<le> 128 \<Longrightarrow> round_power_2 x = Some 7"
  "128 < x \<Longrightarrow> x \<le> 256 \<Longrightarrow> round_power_2 x = Some 8"
  "256 < x \<Longrightarrow> x \<le> 512 \<Longrightarrow> round_power_2 x = Some 9"
  "512 < x \<Longrightarrow> x \<le> 1024 \<Longrightarrow> round_power_2 x = Some 10"
  "1024 < x \<Longrightarrow> x \<le> 2048 \<Longrightarrow> round_power_2 x = Some 11"
  by (simp_all add: round_power_2_def round_power_2_loop_step round_power_2_loop_stop
      word_less_nat_alt word_le_nat_alt)

lemma size_class_less: "size_class x < 8"
  by (simp add: size_class_def)

lemma round_power_2_size_class:
  assumes "x \<le> 2048"
  shows "round_power_2 x = Some (of_nat (size_class x + 4))"
proof -
  consider "x \<le> 16" | "16 < x" "x \<le> 32" | "32 < x" "x \<le> 64" | "64 < x" "x \<le> 128"
    | "128 < x" "x \<le> 256" | "256 < x" "x \<le> 512" | "512 < x" "x \<le> 1024"
    | "1024 < x" "x \<le> 2048"
    using assms by (meson not_le)
  then show ?thesis
    by cases (simp_all add: round_power_2_cases size_class_def word_less_nat_alt word_le_nat_alt)
qed

lemma size_class_bounds:
  assumes "x \<le> 2048"
  shows "unat x \<le> 2 ^ (size_class x + 4)"
    and "0 < size_class x \<Longrightarrow> 2 ^ (size_class x + 3) < unat x"
  using assms by (simp_all add: size_class_def word_less_nat_alt word_le_nat_alt split: if_splits)

lemma xxfree_loop_step:
  "start \<noteq> 16 \<Longrightarrow> xxfree_loop start accum = xxfree_loop (signed_drop_bit 1 start) (accum + 1)"
  by (subst xxfree_loop.simps) simp

lemma xxfree_loop_stop: "xxfree_loop 16 accum = Some accum"
  by (subst xxfree_loop.simps) simp

lemma class_size_cases:
  fixes k :: nat
  assumes "k < 8"
  obtains "k = 0" | "k = 1" | "k = 2" | "k = 3" | "k = 4" | "k = 5" | "k = 6" | "k = 7"
  using assms by linarith

lemma xxfree_loop_class_size:
  assumes "k < 8"
  shows "xxfree_loop (ucast (class_size k)) 0 = Some (of_nat k)"
  using assms
  by (cases k rule: class_size_cases)
     (simp_all add: class_size_def xxfree_loop_step xxfree_loop_stop)

lemma block_size_class_size:
  assumes "k < 8"
  shows "(scast (push_bit (unat (of_nat (k + 4) :: 64 word)) (1 :: 32 word)) :: 64 word) = class_size k"
  using assms
  by (cases k rule: class_size_cases) (simp_all add: class_size_def)

lemma list_index_class:
  assumes "k < 8"
  shows "(of_nat (k + 4) :: 64 word) - 4 < 8" and "unat ((of_nat (k + 4) :: 64 word) - 4) = k"
  using assms
  by (cases k rule: class_size_cases; simp)+

subsection \<open>Unfolding \<^verbatim>\<open>xxmalloc\<close>\<close>

lemma xxmalloc_small:
  assumes "sz \<le> 2048"
  shows "xxmalloc e sz s =
    outcome_bind
      (if lists s (size_class sz) = NULL
       then carve e (size_class sz) (class_size (size_class sz)) s else Returns s)
      (\<lambda>s1. Returns (lists s1 (size_class sz),
         s1\<lparr>lists := (lists s1)(size_class sz := load64 (mem s1) (lists s1 (size_class sz)))\<rparr>))"
proof -
  have "\<not> 2048 < sz" using assms by (simp add: not_less)
  have lt: "(of_nat (size_class sz) :: 64 word) < 8"
    using list_index_class(1)[OF size_class_less, of sz] by simp
  show ?thesis
    unfolding xxmalloc_def Let_def round_power_2_size_class[OF assms] option.case
      list_index_class[OF size_class_less] block_size_class_size[OF size_class_less]
    using \<open>\<not> 2048 < sz\<close> lt by simp
qed

lemma xxmalloc_large:
  assumes "2048 < sz"
  shows "xxmalloc e sz s =
    (if mmap_ret e = MAP_FAILED
     then outcome_bind (log_message e ''mmap failed! Giving up.\<newline>'' s) (\<lambda>s1. Exits 2 s1)
     else Returns (mmap_ret e,
       s\<lparr>mem := \<lambda>x. if x - mmap_ret e < ROUND_UP sz PAGE_SIZE then 0 else mem s x\<rparr>))"
  using assms unfolding xxmalloc_def mmap_anon_def by (simp add: Let_def)

lemma log_message_then_exit:
  "\<exists>s'. outcome_bind (log_message e msg s) (\<lambda>s1. Exits 2 s1) = Exits 2 s'
     \<and> lists s' = lists s \<and> mem s' = mem s \<and> msg \<in> set (stderr_writes s')"
  by (simp add: log_message_def Let_def)

lemma carve_mmap_failed:
  assumes "mmap_ret e = MAP_FAILED"
  shows "carve e idx bs s = outcome_bind (log_message e ''mmap failed\<newline>'' s) (\<lambda>s1. Exits 2 s1)"
  using assms by (simp add: carve_def mmap_anon_def)

subsection \<open>Pages\<close>

lemma srem_nonneg:
  assumes "0 \<le>s a"
  shows "srem a PAGE_SIZE = a mod PAGE_SIZE"
proof -
  have nn: "0 \<le> sint a" using assms by (simp add: word_sle_eq)
  have "uint a = uint (word_of_int (sint a) :: 64 word)" by simp
  also have "\<dots> = sint a mod 2 ^ 64" by (simp only: uint_word_of_int) simp
  also have "\<dots> = sint a" using nn sint_less[of a] by simp
  finally have su: "sint a = uint a" by simp
  have "sint a smod 4096 = sint a mod 4096"
    using nn by (simp add: smod_int_alt_def sgn_if)
  then have "srem a PAGE_SIZE = word_of_int (uint a mod 4096)"
    by (simp add: srem_def su)
  also have "\<dots> = a mod 4096"
    by (simp add: word_mod_def)
  finally show ?thesis .
qed

lemma page_of_nonneg: "0 \<le>s a \<Longrightarrow> page_of a = page_base a"
  by (simp add: page_of_def page_base_def srem_nonneg)

lemma nat_round_up:
  fixes q r U' :: nat
  assumes "r < 4096" "4096 * q + r < 4096 * U'"
  shows "(if r = 0 then 4096 * q + r
          else if 4096 * q + r + (4096 - r) < 4096 * U' then 4096 * q + r + (4096 - r)
          else 4096 * q + r + (4096 - r) - 4096 * U')
         = (4096 * (q + (if r = 0 then 0 else 1))) mod (4096 * U')"
proof -
  have q: "q < U'" using assms by linarith
  show ?thesis
  proof (cases "r = 0")
    case True
    then show ?thesis using assms by simp
  next
    case False
    have e: "4096 * q + r + (4096 - r) = 4096 * (q + 1)" using assms(1) by simp
    show ?thesis
    proof (cases "q + 1 < U'")
      case True
      then show ?thesis using False e by simp
    next
      case False
      then have "q + 1 = U'" using q by linarith
      then show ?thesis using \<open>r \<noteq> 0\<close> e by simp
    qed
  qed
qed

lemma unat_ROUND_UP:
  "unat (ROUND_UP s PAGE_SIZE) = (((unat s + 4095) div 4096) * 4096) mod 18446744073709551616"
proof -
  define q r where "q = unat s div 4096" and "r = unat s mod 4096"
  have S: "unat s = 4096 * q + r" and r: "r < 4096" by (simp_all add: q_def r_def)
  have lt: "4096 * q + r < 4096 * 4503599627370496" using unat_lt64[of s] S by simp
  have um: "unat (s mod 4096) = r" by (simp add: unat_mod r_def)
  have z: "s mod 4096 = 0 \<longleftrightarrow> r = 0" using um by (metis unat_eq_zero)
  have us: "unat (4096 - s mod 4096) = 4096 - r"
    using um r by (simp add: unat_sub64)
  have L: "unat (ROUND_UP s PAGE_SIZE) =
      (if r = 0 then 4096 * q + r
          else if 4096 * q + r + (4096 - r) < 4096 * 4503599627370496 then 4096 * q + r + (4096 - r)
          else 4096 * q + r + (4096 - r) - 4096 * 4503599627370496)"
    by (simp add: ROUND_UP_def z unat_add64 us S)
  have d0: "(r + 4095) div 4096 = (if r = 0 then 0 else 1)"
    using r by (simp add: div_nat_eqI)
  have "(4096 * q + (r + 4095)) div 4096 = q + (r + 4095) div 4096"
    by (rule div_mult_self4) simp
  then have d: "(unat s + 4095) div 4096 = q + (if r = 0 then 0 else 1)"
    by (simp add: S d0 add.assoc)
  show ?thesis
    unfolding L d nat_round_up[OF r lt] by (simp add: mult.commute)
qed

lemma least_multiple:
  fixes n :: nat
  shows "4096 dvd (n + 4095) div 4096 * 4096" and "n \<le> (n + 4095) div 4096 * 4096"
    and "4096 dvd m \<Longrightarrow> n \<le> m \<Longrightarrow> (n + 4095) div 4096 * 4096 \<le> m"
proof -
  show "4096 dvd (n + 4095) div 4096 * 4096" by simp
  show "n \<le> (n + 4095) div 4096 * 4096" by linarith
  assume "4096 dvd m" "n \<le> m"
  then obtain c where c: "m = 4096 * c" by (auto elim: dvdE)
  have "(n + 4095) div 4096 \<le> c" using \<open>n \<le> m\<close> unfolding c by linarith
  then show "(n + 4095) div 4096 * 4096 \<le> m" unfolding c by simp
qed

lemma ROUND_UP_exact:
  assumes "unat sz \<le> 2 ^ 64 - 4096"
  shows "unat (ROUND_UP sz PAGE_SIZE) = (unat sz + 4095) div 4096 * 4096"
proof -
  have "(unat sz + 4095) div 4096 * 4096 \<le> 2 ^ 64 - 4096"
    by (rule least_multiple(3)) (use assms in simp_all)
  then show ?thesis
    by (simp add: unat_ROUND_UP)
qed

lemma ROUND_UP_ge:
  assumes "unat sz \<le> 2 ^ 64 - 4096"
  shows "unat sz \<le> unat (ROUND_UP sz PAGE_SIZE)"
  unfolding ROUND_UP_exact[OF assms] by (rule least_multiple(2))

text \<open>
  C9, as amended. For every request above 2048 bytes the length handed to \<^verbatim>\<open>mmap\<close> is
  \<^verbatim>\<open>ROUND_UP(size, PAGE_SIZE)\<close>, which is the least multiple of 4096 that is at least
  \<open>size\<close>, reduced modulo \<open>2 ^ 64\<close>: it is that least multiple itself while
  \<open>size \<le> 2 ^ 64 - 4096\<close>, and it wraps to 0 for the 4095 sizes above.
\<close>

theorem large_request_length:
  assumes "2048 < sz"
  shows "xxmalloc e sz s =
           (let (p, m) = mmap_anon e (ROUND_UP sz PAGE_SIZE) (mem s)
            in if p = MAP_FAILED
               then outcome_bind (log_message e ''mmap failed! Giving up.\<newline>'' s) (\<lambda>s1. Exits 2 s1)
               else Returns (p, s\<lparr>mem := m\<rparr>))
         \<and> unat (ROUND_UP sz PAGE_SIZE) = ((unat sz + 4095) div 4096 * 4096) mod 2 ^ 64
         \<and> (unat sz \<le> 2 ^ 64 - 4096 \<longrightarrow>
              4096 dvd unat (ROUND_UP sz PAGE_SIZE) \<and> unat sz \<le> unat (ROUND_UP sz PAGE_SIZE)
              \<and> (\<forall>m. 4096 dvd m \<and> unat sz \<le> m \<longrightarrow> unat (ROUND_UP sz PAGE_SIZE) \<le> m))
         \<and> (2 ^ 64 - 4096 < unat sz \<longrightarrow> ROUND_UP sz PAGE_SIZE = 0)"
proof (intro conjI impI allI)
  show "xxmalloc e sz s =
           (let (p, m) = mmap_anon e (ROUND_UP sz PAGE_SIZE) (mem s)
            in if p = MAP_FAILED
               then outcome_bind (log_message e ''mmap failed! Giving up.\<newline>'' s) (\<lambda>s1. Exits 2 s1)
               else Returns (p, s\<lparr>mem := m\<rparr>))"
    using assms unfolding xxmalloc_def by (simp add: Let_def)
  show u: "unat (ROUND_UP sz PAGE_SIZE) = ((unat sz + 4095) div 4096 * 4096) mod 2 ^ 64"
    by (simp add: unat_ROUND_UP)
  {
    assume le: "unat sz \<le> 2 ^ 64 - 4096"
    have e: "unat (ROUND_UP sz PAGE_SIZE) = (unat sz + 4095) div 4096 * 4096"
      by (rule ROUND_UP_exact[OF le])
    show "4096 dvd unat (ROUND_UP sz PAGE_SIZE)" unfolding e by (rule least_multiple(1))
    show "unat sz \<le> unat (ROUND_UP sz PAGE_SIZE)" unfolding e by (rule least_multiple(2))
    fix m assume "4096 dvd m \<and> unat sz \<le> m"
    then show "unat (ROUND_UP sz PAGE_SIZE) \<le> m" unfolding e by (simp add: least_multiple(3))
  }
  {
    assume gt: "2 ^ 64 - 4096 < unat sz"
    obtain c where c: "(unat sz + 4095) div 4096 * 4096 = 4096 * c"
      using least_multiple(1)[of "unat sz"] by (auto elim: dvdE)
    have "18446744073709547520 < 4096 * c"
      using gt least_multiple(2)[of "unat sz"] unfolding c by simp
    then have "4503599627370496 \<le> c" by linarith
    then have lo: "2 ^ 64 \<le> (unat sz + 4095) div 4096 * 4096"
      unfolding c by simp
    have "(unat sz + 4095) div 4096 * 4096 \<le> 2 ^ 64"
      by (rule least_multiple(3)) (use unat_lt64[of sz] in simp_all)
    with lo have "(unat sz + 4095) div 4096 * 4096 = 2 ^ 64" by simp
    then have "unat (ROUND_UP sz PAGE_SIZE) = 0" unfolding u by simp
    then show "ROUND_UP sz PAGE_SIZE = 0" by (simp only: unat_eq_zero)
  }
qed

theorem large_request_length_witness:
  "(2048 :: 64 word) < 3000
   \<and> unat (3000 :: 64 word) \<le> 2 ^ 64 - 4096
   \<and> unat (ROUND_UP 3000 PAGE_SIZE) = 4096
   \<and> 4096 dvd unat (ROUND_UP 3000 PAGE_SIZE)
   \<and> unat (3000 :: 64 word) \<le> unat (ROUND_UP 3000 PAGE_SIZE)"
  using large_request_length [of 3000 "\<lparr>mmap_ret = 0x10000, write_ret = 0\<rparr>" "\<lparr>lists = (\<lambda>_. NULL), mem = (\<lambda>_. 0), stderr_writes = []\<rparr>"]
  by (simp add: ROUND_UP_def)

theorem large_request_length_counterexample:
  "(2048 :: 64 word) < 18446744073709551615
   \<and> ROUND_UP 18446744073709551615 PAGE_SIZE = 0
   \<and> \<not> (18446744073709551615 :: 64 word) \<le> ROUND_UP 18446744073709551615 PAGE_SIZE"
  by (simp add: ROUND_UP_def)

subsection \<open>Memory\<close>

lemma upt8: "[0..<8] = [0, 1, 2, 3, 4, 5, 6, 7]"
  by (simp add: upt_rec)

lemma upt4: "[0..<4] = [0, 1, 2, 3]"
  by (simp add: upt_rec)

lemma low_byte64: "(ucast (ucast (w :: 64 word) :: 8 word) :: 64 word) = w - 256 * drop_bit 8 w"
proof -
  have "(ucast (ucast w :: 8 word) :: 64 word) = take_bit 8 w"
    by (rule bit_word_eqI) (simp add: bit_simps)
  also have "\<dots> = w mod 256" by (simp add: take_bit_eq_mod)
  also have "\<dots> = w - 256 * drop_bit 8 w"
    by (simp add: drop_bit_eq_div minus_mult_div_eq_mod)
  finally show ?thesis .
qed

lemma low_byte32: "(ucast (ucast (w :: 32 word) :: 8 word) :: 32 word) = w - 256 * drop_bit 8 w"
proof -
  have "(ucast (ucast w :: 8 word) :: 32 word) = take_bit 8 w"
    by (rule bit_word_eqI) (simp add: bit_simps)
  also have "\<dots> = w mod 256" by (simp add: take_bit_eq_mod)
  also have "\<dots> = w - 256 * drop_bit 8 w"
    by (simp add: drop_bit_eq_div minus_mult_div_eq_mod)
  finally show ?thesis .
qed

lemma load64_store64_same: "load64 (store64 m a v) a = v"
  by (simp add: load64_def store64_def upt8) (simp add: low_byte64 algebra_simps)

lemma load32_store32_same: "load32 (store32 m a v) a = v"
  by (simp add: load32_def store32_def upt4) (simp add: low_byte32 algebra_simps)

lemma load64_cong:
  assumes "\<And>i. i < 8 \<Longrightarrow> m' (a + of_nat i) = m (a + of_nat i)"
  shows "load64 m' a = load64 m a"
proof -
  have "map (\<lambda>i. m' (a + of_nat i)) [0..<8] = map (\<lambda>i. m (a + of_nat i)) [0..<8]"
    by (rule map_cong) (simp_all add: assms)
  then show ?thesis unfolding load64_def by (rule arg_cong)
qed

lemma load32_cong:
  assumes "\<And>i. i < 4 \<Longrightarrow> m' (a + of_nat i) = m (a + of_nat i)"
  shows "load32 m' a = load32 m a"
proof -
  have "map (\<lambda>i. m' (a + of_nat i)) [0..<4] = map (\<lambda>i. m (a + of_nat i)) [0..<4]"
    by (rule map_cong) (simp_all add: assms)
  then show ?thesis unfolding load32_def by (rule arg_cong)
qed

lemma load32_zero:
  assumes "\<And>i. i < 4 \<Longrightarrow> m (a + of_nat i) = 0"
  shows "load32 m a = 0"
proof -
  have "load32 m a = load32 (\<lambda>_. 0) a" by (rule load32_cong) (simp add: assms)
  then show ?thesis by (simp add: load32_def upt4)
qed

lemma class_size_nonzero: "k < 8 \<Longrightarrow> class_size k \<noteq> 0"
  by (cases k rule: class_size_cases) (simp_all add: class_size_def)

lemma class_index_int:
  assumes "k < 8"
  shows "0 \<le>s (of_nat k :: 32 word)" and "(of_nat k :: 32 word) <s 8" and "unat (of_nat k :: 32 word) = k"
proof -
  show "0 \<le>s (of_nat k :: 32 word)" using assms by (cases k rule: class_size_cases) (simp_all add: word_sle_eq)
  show "(of_nat k :: 32 word) <s 8" using assms by (cases k rule: class_size_cases) (simp_all add: word_sless_alt)
  show "unat (of_nat k :: 32 word) = k" using assms by (cases k rule: class_size_cases) simp_all
qed


lemma xxfree_slab:
  assumes "ptr \<noteq> NULL" and "slab_header (mem s) (page_of ptr) (class_size k)" and "k < 8"
  shows "xxfree ptr s = Returns (s\<lparr>lists := (lists s)(k := ptr - ptr mod class_size k),
            mem := store64 (mem s) (ptr - ptr mod class_size k) (lists s k)\<rparr>)"
proof -
  have h: "load32 (mem s) (page_of ptr) = MAGIC" "load64 (mem s) (page_of ptr + 8) = class_size k"
    using assms(2) by (simp_all add: slab_header_def)
  have us: "xxmalloc_usable_size ptr s = class_size k"
    using assms(1) h by (simp add: xxmalloc_usable_size_def Let_def)
  show ?thesis
    unfolding xxfree_def Let_def us
    using assms(1) h(1) class_size_nonzero[OF assms(3)] class_index_int[OF assms(3)]
    by (simp add: xxfree_loop_class_size[OF assms(3)])
qed

text \<open>
  C4. Releasing a pointer into a block of a slab page of class \<open>k\<close> and then asking for a
  size that classifies to \<open>k\<close> hands out that same block's start address, and leaves the
  table of list heads as it was before the release.
\<close>

theorem lifo_reuse:
  assumes "ptr \<noteq> NULL" and "slab_header (mem s) (page_of ptr) (class_size k)" and "k < 8"
    and "ptr - ptr mod class_size k \<noteq> NULL"
    and "sz \<le> 2048" and "size_class sz = k"
  shows "\<exists>s1 s2. xxfree ptr s = Returns s1
           \<and> xxmalloc e sz s1 = Returns (ptr - ptr mod class_size k, s2)
           \<and> lists s2 = lists s"
  using assms(4,6)
  by (simp add: xxfree_slab[OF assms(1,2,3)] xxmalloc_small[OF assms(5)] load64_store64_same)

text \<open>
  C8. When \<^verbatim>\<open>mmap\<close> fails on a path that calls it (a request above 2048 bytes, or a small
  request whose free list is empty), \<^verbatim>\<open>xxmalloc\<close> does not return: the process exits with
  status 2 after handing the message to \<^verbatim>\<open>write\<close>, with \<^verbatim>\<open>lists\<close> and memory as they were.
\<close>

theorem mmap_failure_exits:
  assumes "mmap_ret e = MAP_FAILED" and "2048 < sz \<or> lists s (size_class sz) = NULL"
  shows "\<exists>s'. xxmalloc e sz s = Exits 2 s' \<and> lists s' = lists s \<and> mem s' = mem s
           \<and> (if 2048 < sz then ''mmap failed! Giving up.\<newline>'' else ''mmap failed\<newline>'')
                \<in> set (stderr_writes s')"
proof (cases "2048 < sz")
  case True
  then show ?thesis
    using log_message_then_exit[of e "''mmap failed! Giving up.\<newline>''" s]
    by (simp add: xxmalloc_large assms(1))
next
  case False
  then have small: "sz \<le> 2048" and emp: "lists s (size_class sz) = NULL"
    using assms(2) by auto
  obtain s' where s': "outcome_bind (log_message e ''mmap failed\<newline>'' s) (\<lambda>s1. Exits 2 s1) = (Exits 2 s' :: state outcome)"
    "lists s' = lists s" "mem s' = mem s" "''mmap failed\<newline>'' \<in> set (stderr_writes s')"
    using log_message_then_exit[of e "''mmap failed\<newline>''" s] by blast
  have "xxmalloc e sz s = Exits 2 s'"
    by (simp add: xxmalloc_small[OF small] emp carve_mmap_failed[OF assms(1)] s'(1))
  then show ?thesis
    using False s'(2,3,4) by simp
qed

text \<open>
  C10. For a request of at most 2048 bytes \<^verbatim>\<open>round_power_2\<close> returns, with a value from 4
  to 11, so \<^verbatim>\<open>list_index - 4\<close> is an index from 0 to 7; and from each of the eight class
  sizes the halving loop of \<^verbatim>\<open>xxfree\<close> returns, with an index from 0 to 7.
\<close>

theorem table_index_in_bounds:
  fixes sz bs :: "64 word"
  assumes "sz \<le> 2048" and "bs \<in> {16, 32, 64, 128, 256, 512, 1024, 2048}"
  shows "(\<exists>r. round_power_2 sz = Some r \<and> 4 \<le> r \<and> r \<le> 11 \<and> unat (r - 4) < 8)
       \<and> (\<exists>accum. xxfree_loop (ucast bs) 0 = Some accum \<and> 0 \<le>s accum \<and> accum <s 8)"
proof
  have k: "size_class sz < 8" by (rule size_class_less)
  have "4 \<le> (of_nat (size_class sz + 4) :: 64 word) \<and> (of_nat (size_class sz + 4) :: 64 word) \<le> 11"
    using k by (cases "size_class sz" rule: class_size_cases) simp_all
  then show "\<exists>r. round_power_2 sz = Some r \<and> 4 \<le> r \<and> r \<le> 11 \<and> unat (r - 4) < 8"
    using k by (simp add: round_power_2_size_class[OF assms(1)] list_index_class[OF k] del: of_nat_add)
  have "\<exists>k'<8. bs = class_size k'"
    using assms(2) unfolding class_size_def
    by (elim insertE emptyE)
       (rule exI[of _ 0], simp, rule exI[of _ 1], simp, rule exI[of _ 2], simp, rule exI[of _ 3], simp,
        rule exI[of _ 4], simp, rule exI[of _ 5], simp, rule exI[of _ 6], simp, rule exI[of _ 7], simp)
  then obtain k' where k': "k' < 8" "bs = class_size k'" by blast
  show "\<exists>accum. xxfree_loop (ucast bs) 0 = Some accum \<and> 0 \<le>s accum \<and> accum <s 8"
    by (simp add: k' xxfree_loop_class_size class_index_int)
qed

lemma carve_loop_unfold:
  "carve_loop p block_size n i m =
     (if i < n then
        carve_loop p block_size n (i + 1)
          (if i = n - 1 then store64 (store64 m (of_int i * block_size + p) (of_int i * block_size + p + block_size)) (of_int i * block_size + p) NULL
           else store64 m (of_int i * block_size + p) (of_int i * block_size + p + block_size))
      else m)"
  by (subst carve_loop.simps) (simp add: Let_def)

lemma example_slab_node: "load64 (mem example_slab) 0x10800 = NULL"
  by (simp add: example_slab_def load64_def store64_def store32_def upt8)

lemma example_slab_header: "load32 (mem example_slab) 0x10000 = MAGIC" "load64 (mem example_slab) 0x10008 = 2048"
  by (simp_all add: example_slab_def load64_def load32_def store64_def store32_def upt8 upt4)

lemma example_carve:
  "carve example_env 7 2048 init_state =
     Returns (example_slab\<lparr>lists := (\<lambda>_. NULL)(7 := 0x10800)\<rparr>)"
  by (simp add: carve_def mmap_anon_def example_env_def init_state_def example_slab_def
      carve_loop_unfold)

lemma init_state_lists: "lists init_state k = NULL"
  by (simp add: init_state_def)

lemma example_slab_lists: "lists example_slab k = NULL"
  by (simp add: example_slab_def)

lemma example_malloc:
  "xxmalloc example_env 2048 init_state = Returns (0x10800, example_slab)"
proof -
  have "example_slab\<lparr>lists := (\<lambda>_. NULL)(7 := NULL)\<rparr> = example_slab"
    by (simp add: example_slab_def fun_eq_iff)
  then show ?thesis
    by (simp add: xxmalloc_small size_class_def class_size_def init_state_lists example_carve
        example_slab_node)
qed

lemma page_of_example: "page_of 0x10805 = 0x10000" "page_of 0x10004 = 0x10000"
  by (simp_all add: page_of_nonneg word_sle_eq page_base_def)

theorem lifo_reuse_witness:
  "(0x10805 :: addr) \<noteq> NULL
   \<and> slab_header (mem example_slab) (page_of 0x10805) (class_size 7)
   \<and> (7 :: nat) < 8
   \<and> (0x10805 :: addr) - 0x10805 mod class_size 7 \<noteq> NULL
   \<and> (2000 :: 64 word) \<le> 2048
   \<and> size_class 2000 = 7
   \<and> (\<exists>s1 s2. xxfree 0x10805 example_slab = Returns s1
          \<and> xxmalloc example_env 2000 s1 = Returns (0x10800, s2)
          \<and> lists s2 = lists example_slab)"
  using lifo_reuse [of "0x10805" example_slab 7 2000 example_env]
  by (simp add: page_of_example slab_header_def example_slab_header class_size_def size_class_def)

theorem mmap_failure_exits_witness:
  "mmap_ret failing_env = MAP_FAILED
   \<and> lists init_state (size_class 100) = NULL
   \<and> (\<exists>s'. xxmalloc failing_env 100 init_state = Exits 2 s'
          \<and> lists s' = lists init_state \<and> mem s' = mem init_state
          \<and> ''mmap failed\<newline>'' \<in> set (stderr_writes s'))"
  using mmap_failure_exits [of failing_env 100 init_state]
  by (simp add: failing_env_def init_state_lists)

theorem table_index_in_bounds_witness:
  "(100 :: 64 word) \<le> 2048
   \<and> (256 :: 64 word) \<in> {16, 32, 64, 128, 256, 512, 1024, 2048}
   \<and> (\<exists>r. round_power_2 100 = Some r \<and> 4 \<le> r \<and> r \<le> 11 \<and> unat (r - 4) < 8)
   \<and> (\<exists>accum. xxfree_loop (ucast (256 :: 64 word)) 0 = Some accum \<and> 0 \<le>s accum \<and> accum <s 8)"
  using table_index_in_bounds [of 100 256]
  by simp

text \<open>
  C2. A request above 2048 bytes returns the address \<^verbatim>\<open>mmap\<close> gave, and the mapping is fresh
  zero-filled memory with no header: \<^verbatim>\<open>xxmalloc_usable_size\<close> of the returned pointer is 0,
  not a multiple of the page size that covers the request.
\<close>

theorem large_usable_size_zero:
  assumes "2048 < sz" and "unat sz \<le> 2 ^ 64 - 4096"
    and "mmap_ret e \<noteq> MAP_FAILED" and "mmap_ret e mod PAGE_SIZE = 0" and "0 \<le>s mmap_ret e"
  shows "\<exists>s'. xxmalloc e sz s = Returns (mmap_ret e, s') \<and> xxmalloc_usable_size (mmap_ret e) s' = 0"
proof -
  define L where "L = ROUND_UP sz PAGE_SIZE"
  define s' where "s' = s\<lparr>mem := \<lambda>x. if x - mmap_ret e < L then 0 else mem s x\<rparr>"
  have r: "xxmalloc e sz s = Returns (mmap_ret e, s')"
    using assms(3) by (simp add: xxmalloc_large[OF assms(1)] s'_def L_def)
  have "unat sz \<le> unat L"
    unfolding L_def by (rule ROUND_UP_ge[OF assms(2)])
  then have L: "4 < unat L"
    using assms(1) by (simp add: word_less_nat_alt)
  have pg: "page_of (mmap_ret e) = mmap_ret e"
    using assms(4,5) by (simp add: page_of_nonneg page_base_def)
  have "load32 (mem s') (mmap_ret e) = 0"
  proof (rule load32_zero)
    fix i :: nat assume "i < 4"
    then have "unat (of_nat i :: 64 word) < unat L"
      using L by (simp add: unat_of_nat)
    then show "mem s' (mmap_ret e + of_nat i) = 0"
      by (simp add: s'_def word_less_nat_alt)
  qed
  then have "xxmalloc_usable_size (mmap_ret e) s' = 0"
    by (simp add: xxmalloc_usable_size_def pg)
  with r show ?thesis by blast
qed

theorem large_usable_size_zero_witness:
  "(2048 :: 64 word) < 3000 \<and> unat (3000 :: 64 word) \<le> 2 ^ 64 - 4096
   \<and> mmap_ret example_env \<noteq> MAP_FAILED \<and> mmap_ret example_env mod PAGE_SIZE = 0
   \<and> 0 \<le>s mmap_ret example_env
   \<and> (\<exists>s'. xxmalloc example_env 3000 init_state = Returns (0x10000, s')
          \<and> xxmalloc_usable_size 0x10000 s' = 0)"
  using large_usable_size_zero [of 3000 example_env init_state]
  by (simp add: example_env_def word_sle_eq)

subsection \<open>Pages, offsets and alignment\<close>

lemma word_mod_0_iff: "(a :: 64 word) mod b = 0 \<longleftrightarrow> unat a mod unat b = 0"
  by (metis unat_mod unat_eq_zero)

lemma unat_page_base: "unat (page_base a) = unat a - unat a mod 4096"
  by (simp add: page_base_def unat_sub64 unat_mod)

lemma page_base_aligned: "page_base a mod PAGE_SIZE = 0"
  by (simp add: word_mod_0_iff unat_page_base)

lemma sint64: "sint (a :: 64 word) = (if uint a < 9223372036854775808 then uint a else uint a - 18446744073709551616)"
proof -
  have b: "0 \<le> uint a" "uint a < 18446744073709551616"
    using uint_lt2p[of a] by simp_all
  have "sint a = sint (word_of_int (uint a) :: 64 word)" by simp
  also have "\<dots> = (uint a + 9223372036854775808) mod 18446744073709551616 - 9223372036854775808"
    by (simp only: int_word_sint) simp
  also have "\<dots> = (if uint a < 9223372036854775808 then uint a else uint a - 18446744073709551616)"
  proof (cases "uint a < 9223372036854775808")
    case True
    then have "(uint a + 9223372036854775808) mod 18446744073709551616 = uint a + 9223372036854775808"
      using b by (simp add: mod_pos_pos_trivial)
    then show ?thesis using True by simp
  next
    case False
    then have "(uint a + 9223372036854775808) mod 18446744073709551616 = uint a + 9223372036854775808 - 18446744073709551616"
      using b by (simp add: mod_pos_geq mod_pos_pos_trivial)
    then show ?thesis using False by simp
  qed
  finally show ?thesis .
qed

lemma sle_iff: "0 \<le>s (a :: 64 word) \<longleftrightarrow> unat a < 9223372036854775808"
proof -
  have u: "uint a = int (unat a)" by simp
  have b: "uint a < 18446744073709551616"
    using uint_lt2p[of a] by simp
  have "0 \<le>s a \<longleftrightarrow> uint a < 9223372036854775808"
    using b by (simp add: word_sle_eq sint64)
  also have "\<dots> \<longleftrightarrow> unat a < 9223372036854775808"
    unfolding u by (simp only: of_nat_less_numeral_iff)
  finally show ?thesis .
qed

lemma mod_0_multiple:
  fixes n c :: nat
  assumes "n mod c = 0"
  obtains k where "n = c * k"
  using assms by (meson dvdE mod_0_imp_dvd)

lemma aligned_obtain:
  fixes a :: "64 word"
  assumes "a mod PAGE_SIZE = 0"
  obtains A where "unat a = 4096 * A" and "A < 4503599627370496"
proof -
  have "unat a mod 4096 = 0" using assms by (simp add: word_mod_0_iff)
  then obtain A where A: "unat a = 4096 * A" by (rule mod_0_multiple)
  have "4096 * A < 4096 * 4503599627370496" using unat_lt64[of a] unfolding A by simp
  then have "A < 4503599627370496" by simp
  with A show ?thesis by (rule that)
qed

lemma unat_page_offset:
  fixes p :: "64 word"
  assumes "p mod PAGE_SIZE = 0" and "k < 4096"
  shows "unat (p + of_nat k) = unat p + k"
proof -
  obtain A where A: "unat p = 4096 * A" "A < 4503599627370496"
    using assms(1) by (rule aligned_obtain)
  have k: "unat (of_nat k :: 64 word) = k" using assms(2) by (simp add: unat_of_nat)
  have "unat p + k < 18446744073709551616" using A assms(2) by linarith
  then show ?thesis by (simp add: unat_add64 k)
qed

lemma page_base_offset:
  fixes p :: "64 word"
  assumes "p mod PAGE_SIZE = 0" and "k < 4096"
  shows "page_base (p + of_nat k) = p"
proof -
  obtain A where A: "unat p = 4096 * A" "A < 4503599627370496"
    using assms(1) by (rule aligned_obtain)
  have "unat (page_base (p + of_nat k)) = unat p"
    using assms(2) by (simp add: unat_page_base unat_page_offset[OF assms] A)
  then show ?thesis by (simp only: word_unat_eq_iff)
qed

lemma sle_page_offset:
  fixes p :: "64 word"
  assumes "p mod PAGE_SIZE = 0" and "0 \<le>s p" and "k < 4096"
  shows "0 \<le>s p + of_nat k"
proof -
  obtain A where A: "unat p = 4096 * A" "A < 4503599627370496"
    using assms(1) by (rule aligned_obtain)
  have "4096 * A < 4096 * 2251799813685248" using assms(2) by (simp add: sle_iff A)
  then have "A < 2251799813685248" by simp
  then show ?thesis
    using assms(3) by (simp add: sle_iff unat_page_offset[OF assms(1,3)] A)
qed

lemma page_offset_mod:
  fixes p :: "64 word"
  assumes "p mod PAGE_SIZE = 0" and "k < 4096"
  shows "unat ((p + of_nat k) mod b) = (unat p + k) mod unat b"
  by (simp add: unat_mod unat_page_offset[OF assms])

lemma cells_disjoint:
  fixes a b :: "64 word"
  assumes "a mod 8 = 0" and "b mod 8 = 0" and "a \<noteq> b" and "i < 8"
  shows "8 \<le> b + of_nat i - a"
proof -
  have "unat a mod 8 = 0" using assms(1) by (simp add: word_mod_0_iff)
  then obtain A where A: "unat a = 8 * A" by (rule mod_0_multiple)
  have "unat b mod 8 = 0" using assms(2) by (simp add: word_mod_0_iff)
  then obtain B where B: "unat b = 8 * B" by (rule mod_0_multiple)
  have "8 * A < 8 * 2305843009213693952" using unat_lt64[of a] unfolding A by simp
  then have Al: "A < 2305843009213693952" by simp
  have "8 * B < 8 * 2305843009213693952" using unat_lt64[of b] unfolding B by simp
  then have Bl: "B < 2305843009213693952" by simp
  have ne: "A < B \<or> B < A" using assms(3) A B by (auto simp: word_unat_eq_iff)
  have i: "unat (of_nat i :: 64 word) = i" using assms(4) by (simp add: unat_of_nat)
  have bi: "unat (b + of_nat i) = 8 * B + i"
    using Bl assms(4) by (simp add: unat_add64 i B)
  have "8 \<le> unat (b + of_nat i - a)"
    unfolding unat_sub64 bi A using ne Al Bl assms(4) by (simp split: if_splits) linarith
  then show ?thesis by (simp add: word_le_nat_alt)
qed

subsection \<open>Reads after writes\<close>

lemma store64_outside: "8 \<le> x - a \<Longrightarrow> store64 m a v x = m x"
  by (simp add: store64_def not_less[symmetric])

lemma store32_outside: "4 \<le> x - a \<Longrightarrow> store32 m a v x = m x"
  by (simp add: store32_def not_less[symmetric])

lemma load64_store64_other:
  assumes "a mod 8 = 0" and "b mod 8 = 0" and "a \<noteq> b"
  shows "load64 (store64 m a v) b = load64 m b"
  by (rule load64_cong) (simp add: store64_outside cells_disjoint[OF assms])

lemma load32_store64_other:
  assumes "a mod 8 = 0" and "b mod 8 = 0" and "a \<noteq> b"
  shows "load32 (store64 m a v) b = load32 m b"
  by (rule load32_cong) (simp add: store64_outside cells_disjoint[OF assms])

lemma load64_store32_other:
  assumes "a mod 8 = 0" and "b mod 8 = 0" and "a \<noteq> b"
  shows "load64 (store32 m a v) b = load64 m b"
proof (rule load64_cong)
  fix i :: nat assume "i < 8"
  then have "8 \<le> b + of_nat i - a" by (rule cells_disjoint[OF assms])
  then have "4 \<le> b + of_nat i - a" by (simp add: word_le_nat_alt)
  then show "store32 m a v (b + of_nat i) = m (b + of_nat i)" by (rule store32_outside)
qed

lemma outside_page_offset:
  fixes x p :: "64 word"
  assumes "4096 \<le> x - p" and "k + w \<le> 4096"
  shows "of_nat w \<le> x - (p + of_nat k)"
proof -
  have k: "unat (of_nat k :: 64 word) = k" and w: "unat (of_nat w :: 64 word) = w"
    using assms(2) by (simp_all add: unat_of_nat)
  have e: "x - (p + of_nat k) = (x - p) - of_nat k" by simp
  have "4096 \<le> unat (x - p)" using assms(1) by (simp add: word_le_nat_alt)
  then have "w \<le> unat ((x - p) - of_nat k)"
    using assms(2) by (simp add: unat_sub64 k)
  then show ?thesis unfolding e by (simp add: word_le_nat_alt w)
qed

subsection \<open>Blocks of a slab page\<close>

lemma unat_class_size: "k < 8 \<Longrightarrow> unat (class_size k) = 2 ^ (k + 4)"
  by (cases k rule: class_size_cases) (simp_all add: class_size_def)

lemma blocks_fit:
  fixes k j :: nat
  assumes "k < 8" and "j < 2 ^ (8 - k)"
  shows "j * 2 ^ (k + 4) + 2 ^ (k + 4) \<le> 4096"
proof -
  have "(j + 1) * 2 ^ (k + 4) \<le> 2 ^ (8 - k) * (2 ^ (k + 4) :: nat)"
    using assms(2) by (intro mult_le_mono1) simp
  also have "\<dots> = 2 ^ 12"
    using assms(1) by (simp add: power_add[symmetric])
  finally show ?thesis by simp
qed

lemma blocks_lt:
  fixes k j :: nat
  assumes "k < 8" and "j < 2 ^ (8 - k)"
  shows "j * 2 ^ (k + 4) < 4096"
proof -
  have "0 < (2 :: nat) ^ (k + 4)" by simp
  then show ?thesis using blocks_fit[OF assms] by linarith
qed

lemma block_size_multiple:
  fixes k :: nat
  obtains c where "(2 :: nat) ^ (k + 4) = 16 * c" and "c = 2 ^ k"
  by (simp add: power_add)

lemma block_at_offset: "block_at p (class_size k) j = p + of_nat (j * 2 ^ (k + 4))"
  by (simp add: block_at_def class_size_def)

lemma unat_block_at:
  assumes "p mod PAGE_SIZE = 0" and "k < 8" and "j < 2 ^ (8 - k)"
  shows "unat (block_at p (class_size k) j) = unat p + j * 2 ^ (k + 4)"
proof -
  have "j * 2 ^ (k + 4) < 4096" by (rule blocks_lt[OF assms(2,3)])
  then show ?thesis
    unfolding block_at_offset by (rule unat_page_offset[OF assms(1)])
qed

lemma block_at_aligned:
  assumes "p mod PAGE_SIZE = 0" and "k < 8" and "j < 2 ^ (8 - k)"
  shows "block_at p (class_size k) j mod class_size k = 0"
proof -
  obtain A where A: "unat p = 4096 * A" "A < 4503599627370496"
    using assms(1) by (rule aligned_obtain)
  have "(2 :: nat) ^ (k + 4) dvd 2 ^ 12" using assms(2) by (intro le_imp_power_dvd) simp
  then have "(2 :: nat) ^ (k + 4) dvd 4096 * A" by simp
  then have "(4096 * A + j * 2 ^ (k + 4)) mod 2 ^ (k + 4) = 0" by simp
  then show ?thesis
    by (simp add: word_mod_0_iff unat_block_at[OF assms] unat_class_size[OF assms(2)] A)
qed

lemma block_at_mod8:
  assumes "p mod PAGE_SIZE = 0" and "k < 8" and "j < 2 ^ (8 - k)"
  shows "block_at p (class_size k) j mod 8 = 0"
proof -
  obtain A where A: "unat p = 4096 * A" "A < 4503599627370496"
    using assms(1) by (rule aligned_obtain)
  have "(8 :: nat) dvd 4096 * A" by simp
  moreover have "(8 :: nat) dvd j * 2 ^ (k + 4)" by (simp add: power_add)
  ultimately have "(4096 * A + j * 2 ^ (k + 4)) mod 8 = 0" by (simp add: mod_0_imp_dvd dvd_add)
  then show ?thesis
    by (simp add: word_mod_0_iff unat_block_at[OF assms] A)
qed

lemma block_at_inj:
  assumes "p mod PAGE_SIZE = 0" and "k < 8" and "i < 2 ^ (8 - k)" and "j < 2 ^ (8 - k)" and "i \<noteq> j"
  shows "block_at p (class_size k) i \<noteq> block_at p (class_size k) j"
proof -
  have "unat (block_at p (class_size k) i) \<noteq> unat (block_at p (class_size k) j)"
    using assms(5) by (simp add: unat_block_at[OF assms(1,2)] assms(3,4))
  then show ?thesis by auto
qed

lemma block_at_page:
  assumes "p mod PAGE_SIZE = 0" and "k < 8" and "j < 2 ^ (8 - k)"
  shows "page_base (block_at p (class_size k) j) = p"
proof -
  have "j * 2 ^ (k + 4) < 4096" by (rule blocks_lt[OF assms(2,3)])
  then show ?thesis
    unfolding block_at_offset by (rule page_base_offset[OF assms(1)])
qed

lemma block_at_sle:
  assumes "p mod PAGE_SIZE = 0" and "0 \<le>s p" and "k < 8" and "j < 2 ^ (8 - k)"
  shows "0 \<le>s block_at p (class_size k) j"
proof -
  have "j * 2 ^ (k + 4) < 4096" by (rule blocks_lt[OF assms(3,4)])
  then show ?thesis
    unfolding block_at_offset by (rule sle_page_offset[OF assms(1,2)])
qed

lemma block_at_not_page_start:
  assumes "p mod PAGE_SIZE = 0" and "k < 8" and "j < 2 ^ (8 - k)" and "0 < j"
  shows "block_at p (class_size k) j mod PAGE_SIZE \<noteq> 0"
proof -
  obtain A where A: "unat p = 4096 * A" "A < 4503599627370496"
    using assms(1) by (rule aligned_obtain)
  have lt: "j * 2 ^ (k + 4) < 4096" by (rule blocks_lt[OF assms(2,3)])
  have "0 < j * 2 ^ (k + 4)" using assms(4) by simp
  then have "(4096 * A + j * 2 ^ (k + 4)) mod 4096 \<noteq> 0" using lt by simp
  then show ?thesis
    by (simp add: word_mod_0_iff unat_block_at[OF assms(1,2,3)] A)
qed

lemma block_at_0: "block_at p bs 0 = p"
  by (simp add: block_at_def)

lemma header_size_cell:
  assumes "p mod PAGE_SIZE = 0"
  shows "(p + 8) mod 8 = 0" and "p mod 8 = 0" and "p + 8 \<noteq> p"
    and "k < 8 \<Longrightarrow> j < 2 ^ (8 - k) \<Longrightarrow> block_at p (class_size k) j \<noteq> p + 8"
proof -
  obtain A where A: "unat p = 4096 * A" "A < 4503599627370496"
    using assms(1) by (rule aligned_obtain)
  have u8: "unat (p + 8) = unat p + 8"
    using unat_page_offset[OF assms, of 8] by simp
  show "(p + 8) mod 8 = 0" by (simp add: word_mod_0_iff u8 A)
  show "p mod 8 = 0" by (simp add: word_mod_0_iff A)
  show "p + 8 \<noteq> p" by simp
  assume k: "k < 8" and j: "j < 2 ^ (8 - k)"
  have "j * 2 ^ (k + 4) \<noteq> 8"
  proof
    assume "j * 2 ^ (k + 4) = 8"
    then have "16 * (j * 2 ^ k) = 8" by (simp add: power_add)
    then show False by presburger
  qed
  then have "unat (block_at p (class_size k) j) \<noteq> unat (p + 8)"
    by (simp add: unat_block_at[OF assms k j] u8)
  then show "block_at p (class_size k) j \<noteq> p + 8" by auto
qed

subsection \<open>The carving loop\<close>

lemma store64_overwrite: "store64 (store64 m a v) a w = store64 m a w"
  by (rule ext) (simp add: store64_def)

lemma carve_loop_stop: "\<not> i < n \<Longrightarrow> carve_loop p bs n i m = m"
  by (subst carve_loop.simps) simp

lemma carve_loop_step:
  assumes "i < n"
  shows "carve_loop p bs (int n) (int i) m =
         carve_loop p bs (int n) (int (Suc i))
           (store64 m (block_at p bs i) (if Suc i = n then NULL else block_at p bs (Suc i)))"
proof -
  have a: "of_int (int i) * bs + p = block_at p bs i" by (simp add: block_at_def)
  have b: "block_at p bs i + bs = block_at p bs (Suc i)" by (simp add: block_at_def algebra_simps)
  have c: "int i = int n - 1 \<longleftrightarrow> Suc i = n" using assms by auto
  have d: "int i + 1 = int (Suc i)" by simp
  show ?thesis
    using assms
    by (subst carve_loop.simps) (simp only: Let_def a b c d store64_overwrite of_nat_less_iff if_True split: if_splits, simp)
qed

lemma carve_loop_frame:
  assumes "\<And>j. i \<le> j \<Longrightarrow> j < n \<Longrightarrow> 8 \<le> x - block_at p bs j"
  shows "carve_loop p bs (int n) (int i) m x = m x"
  using assms
proof (induction "n - i" arbitrary: i m)
  case 0
  then have "\<not> int i < int n" by simp
  then show ?case by (simp add: carve_loop_stop)
next
  case (Suc d)
  then have lt: "i < n" and d: "d = n - Suc i" by simp_all
  have "carve_loop p bs (int n) (int (Suc i)) (store64 m (block_at p bs i) (if Suc i = n then NULL else block_at p bs (Suc i))) x
        = store64 m (block_at p bs i) (if Suc i = n then NULL else block_at p bs (Suc i)) x"
    by (rule Suc.hyps(1)[OF d]) (simp add: Suc.prems)
  also have "\<dots> = m x"
    by (rule store64_outside) (simp add: Suc.prems lt)
  finally show ?case by (simp add: carve_loop_step[OF lt])
qed

lemma carve_loop_links:
  assumes p: "p mod PAGE_SIZE = 0" and k: "k < 8" and n: "n = 2 ^ (8 - k)"
    and "i \<le> j" and "j < n"
  shows "load64 (carve_loop p (class_size k) (int n) (int i) m) (block_at p (class_size k) j)
         = (if Suc j = n then NULL else block_at p (class_size k) (Suc j))"
  using assms(4,5)
proof (induction "n - i" arbitrary: i m)
  case 0
  then show ?case by simp
next
  case (Suc d)
  then have lt: "i < n" and d: "d = n - Suc i" by simp_all
  let ?m' = "store64 m (block_at p (class_size k) i) (if Suc i = n then NULL else block_at p (class_size k) (Suc i))"
  show ?case
  proof (cases "j = i")
    case True
    have "load64 (carve_loop p (class_size k) (int n) (int (Suc i)) ?m') (block_at p (class_size k) i)
          = load64 ?m' (block_at p (class_size k) i)"
    proof (rule load64_cong)
      fix b :: nat assume b: "b < 8"
      show "carve_loop p (class_size k) (int n) (int (Suc i)) ?m' (block_at p (class_size k) i + of_nat b)
            = ?m' (block_at p (class_size k) i + of_nat b)"
      proof (rule carve_loop_frame)
        fix j' assume j': "Suc i \<le> j'" "j' < n"
        show "8 \<le> block_at p (class_size k) i + of_nat b - block_at p (class_size k) j'"
        proof (rule cells_disjoint[OF _ _ _ b])
          show "block_at p (class_size k) j' mod 8 = 0"
            using j' by (intro block_at_mod8[OF p k]) (simp add: n)
          show "block_at p (class_size k) i mod 8 = 0"
            using lt by (intro block_at_mod8[OF p k]) (simp add: n)
          show "block_at p (class_size k) j' \<noteq> block_at p (class_size k) i"
            using j' lt by (intro block_at_inj[OF p k]) (simp_all add: n)
        qed
      qed
    qed
    then show ?thesis
      using True by (simp add: carve_loop_step[OF lt] load64_store64_same)
  next
    case False
    then have "Suc i \<le> j" using Suc.prems by simp
    then show ?thesis
      using Suc.hyps(1)[OF d _ Suc.prems(2)] by (simp add: carve_loop_step[OF lt])
  qed
qed

lemma carve_count:
  assumes "k < 8"
  shows "sint (ucast (PAGE_SIZE div class_size k) :: 32 word) = 2 ^ (8 - k)"
  using assms by (cases k rule: class_size_cases) (simp_all add: class_size_def)

lemma carve_success:
  assumes "mmap_ret e \<noteq> MAP_FAILED" and "k < 8"
  shows "carve e k (class_size k) s =
         Returns (s\<lparr>lists := (lists s)(k := block_at (mmap_ret e) (class_size k) 1),
                   mem := carved_mem (mmap_ret e) k (mem s)\<rparr>)"
  using assms
  by (simp add: carve_def mmap_anon_def class_size_nonzero carve_count carved_mem_def block_at_def Let_def)

lemma carved_mem_links:
  assumes p: "p mod PAGE_SIZE = 0" and k: "k < 8" and j: "0 < j" "j < 2 ^ (8 - k)"
  shows "load64 (carved_mem p k m) (block_at p (class_size k) j)
         = (if Suc j = 2 ^ (8 - k) then NULL else block_at p (class_size k) (Suc j))"
proof -
  let ?b = "block_at p (class_size k) j"
  have b8: "?b mod 8 = 0" by (rule block_at_mod8[OF p k j(2)])
  have np: "?b \<noteq> p"
  proof
    assume "?b = p"
    then have "?b mod PAGE_SIZE = 0" using p by (simp only:)
    then show False using block_at_not_page_start[OF p k j(2,1)] by (simp only:)
  qed
  have "load64 (carved_mem p k m) ?b
        = load64 (store32 (carve_loop p (class_size k) (2 ^ (8 - k)) 1
                         (\<lambda>x. if x - p < PAGE_SIZE then 0 else m x)) p MAGIC) ?b"
    unfolding carved_mem_def
    by (rule load64_store64_other[OF header_size_cell(1)[OF p] b8])
       (use header_size_cell(4)[OF p k j(2)] in auto)
  also have "\<dots> = load64 (carve_loop p (class_size k) (2 ^ (8 - k)) 1
                         (\<lambda>x. if x - p < PAGE_SIZE then 0 else m x)) ?b"
    by (rule load64_store32_other[OF header_size_cell(2)[OF p] b8]) (use np in auto)
  also have "\<dots> = (if Suc j = 2 ^ (8 - k) then NULL else block_at p (class_size k) (Suc j))"
    using carve_loop_links[OF p k refl, of 1 j] j by simp
  finally show ?thesis .
qed

lemma carved_mem_header:
  assumes p: "p mod PAGE_SIZE = 0"
  shows "slab_header (carved_mem p k m) p (class_size k)"
proof -
  have "load32 (carved_mem p k m) p = MAGIC"
    unfolding carved_mem_def
    by (simp add: load32_store64_other[OF header_size_cell(1,2,3)[OF p]] load32_store32_same)
  moreover have "load64 (carved_mem p k m) (p + 8) = class_size k"
    unfolding carved_mem_def by (rule load64_store64_same)
  ultimately show ?thesis by (simp add: slab_header_def)
qed

lemma carved_mem_outside:
  assumes p: "p mod PAGE_SIZE = 0" and k: "k < 8" and x: "4096 \<le> x - p"
  shows "carved_mem p k m x = m x"
proof -
  have "8 \<le> x - (p + 8)"
    using outside_page_offset[OF x, of 8 8] by simp
  then have "carved_mem p k m x
        = store32 (carve_loop p (class_size k) (2 ^ (8 - k)) 1
                         (\<lambda>x. if x - p < PAGE_SIZE then 0 else m x)) p MAGIC x"
    unfolding carved_mem_def by (rule store64_outside)
  also have "\<dots> = carve_loop p (class_size k) (2 ^ (8 - k)) 1
                         (\<lambda>x. if x - p < PAGE_SIZE then 0 else m x) x"
    by (rule store32_outside) (use x in \<open>simp add: word_le_nat_alt\<close>)
  also have "\<dots> = (\<lambda>x. if x - p < PAGE_SIZE then 0 else m x) x"
  proof -
    have "carve_loop p (class_size k) (int (2 ^ (8 - k))) (int 1)
            (\<lambda>x. if x - p < PAGE_SIZE then 0 else m x) x
          = (\<lambda>x. if x - p < PAGE_SIZE then 0 else m x) x"
    proof (rule carve_loop_frame)
      fix j :: nat assume "1 \<le> j" and j: "j < 2 ^ (8 - k)"
      have "(2 :: nat) ^ 4 \<le> 2 ^ (k + 4)" by (intro power_increasing) simp_all
      then have "(8 :: nat) \<le> 2 ^ (k + 4)" by simp
      then have "j * 2 ^ (k + 4) + 8 \<le> 4096" using blocks_fit[OF k j] by linarith
      then have "of_nat 8 \<le> x - (p + of_nat (j * 2 ^ (k + 4)))"
        by (rule outside_page_offset[OF x])
      then show "8 \<le> x - block_at p (class_size k) j"
        by (simp add: block_at_offset)
    qed
    then show ?thesis by simp
  qed
  also have "\<dots> = m x" using x by (simp add: not_less[symmetric])
  finally show ?thesis .
qed

lemma chain_blocks:
  assumes links: "\<And>j. i \<le> j \<Longrightarrow> j < n \<Longrightarrow>
      load64 m (f j) = (if Suc j = n then NULL else f (Suc j))"
    and nz: "\<And>j. i \<le> j \<Longrightarrow> j < n \<Longrightarrow> f j \<noteq> NULL"
    and "i < n"
  shows "chain m (f i) (map f [i..<n])"
  using assms
proof (induction "n - i" arbitrary: i)
  case 0
  then show ?case by simp
next
  case (Suc d)
  have e: "[i..<n] = i # [Suc i..<n]" using Suc.prems(3) by (simp add: upt_rec)
  show ?case
  proof (cases "Suc i = n")
    case True
    then show ?thesis
      using Suc.prems(1)[of i] Suc.prems(2)[of i] by (simp add: e)
  next
    case False
    then have lt: "Suc i < n" using Suc.prems(3) by simp
    have "chain m (f (Suc i)) (map f [Suc i..<n])"
      by (rule Suc.hyps(1)) (use Suc.hyps(2) Suc.prems lt in simp_all)
    then show ?thesis
      using False Suc.prems(1)[of i] Suc.prems(2)[of i] Suc.prems(3) by (simp add: e)
  qed
qed

lemma block_at_nonnull:
  assumes "p mod PAGE_SIZE = 0" and "k < 8" and "j < 2 ^ (8 - k)" and "0 < j"
  shows "block_at p (class_size k) j \<noteq> NULL"
proof
  assume "block_at p (class_size k) j = NULL"
  then have "block_at p (class_size k) j mod PAGE_SIZE = 0" by simp
  then show False using block_at_not_page_start[OF assms] by (simp only:)
qed

lemma carved_mem_chain:
  assumes p: "p mod PAGE_SIZE = 0" and k: "k < 8"
  shows "chain (carved_mem p k m) (block_at p (class_size k) 1)
           (map (block_at p (class_size k)) [1..<2 ^ (8 - k)])"
proof (rule chain_blocks)
  fix j :: nat assume "1 \<le> j" "j < 2 ^ (8 - k)"
  then show "load64 (carved_mem p k m) (block_at p (class_size k) j)
             = (if Suc j = 2 ^ (8 - k) then NULL else block_at p (class_size k) (Suc j))"
    by (intro carved_mem_links[OF p k]) simp_all
  show "block_at p (class_size k) j \<noteq> NULL"
    using \<open>1 \<le> j\<close> \<open>j < 2 ^ (8 - k)\<close> by (intro block_at_nonnull[OF p k]) simp_all
next
  have "(2 :: nat) ^ 1 \<le> 2 ^ (8 - k)" using k by (intro power_increasing) simp_all
  then show "(1 :: nat) < 2 ^ (8 - k)" by simp
qed

lemma blocks_per_page: "k < 8 \<Longrightarrow> unat (PAGE_SIZE div class_size k) = 2 ^ (8 - k)"
  by (cases k rule: class_size_cases) (simp_all add: class_size_def)

text \<open>
  C3. When \<^verbatim>\<open>mmap\<close> gives the page \<open>p\<close> to the carving code for class \<open>k\<close>, the code returns
  with: the header (tag and the class's block size) at \<open>p\<close>, in block 0; the list head of
  class \<open>k\<close> at block 1, every other head as before; and the free list made of blocks
  \<open>1 .. n - 1\<close> in this order, \<open>n = PAGE_SIZE / block_size\<close>, each linked to the block after
  it and the last to \<^verbatim>\<open>NULL\<close>. Block 0 is not on the list, the \<open>n\<close> blocks fill the page, and
  no byte outside the page changes. \<^verbatim>\<open>xxmalloc\<close> runs this code exactly when the list of the
  request's class is empty.
\<close>

theorem carve_threads_page:
  assumes "mmap_ret e \<noteq> MAP_FAILED" and "mmap_ret e mod PAGE_SIZE = 0" and "k < 8"
  shows "\<exists>s'. carve e k (class_size k) s = Returns s'
           \<and> slab_header (mem s') (mmap_ret e) (class_size k)
           \<and> lists s' k = block_at (mmap_ret e) (class_size k) 1
           \<and> (\<forall>j. j \<noteq> k \<longrightarrow> lists s' j = lists s j)
           \<and> chain (mem s') (lists s' k)
                (map (block_at (mmap_ret e) (class_size k)) [1..<unat (PAGE_SIZE div class_size k)])
           \<and> block_at (mmap_ret e) (class_size k) 0
                \<notin> set (map (block_at (mmap_ret e) (class_size k)) [1..<unat (PAGE_SIZE div class_size k)])
           \<and> unat (PAGE_SIZE div class_size k) * unat (class_size k) = 4096
           \<and> (\<forall>x. 4096 \<le> x - mmap_ret e \<longrightarrow> mem s' x = mem s x)
           \<and> (sz \<le> 2048 \<and> size_class sz = k \<and> lists s k = NULL \<longrightarrow>
                 xxmalloc e sz s =
                   Returns (lists s' k, s'\<lparr>lists := (lists s')(k := load64 (mem s') (lists s' k))\<rparr>))"
proof -
  let ?p = "mmap_ret e"
  let ?s' = "s\<lparr>lists := (lists s)(k := block_at ?p (class_size k) 1), mem := carved_mem ?p k (mem s)\<rparr>"
  have c: "carve e k (class_size k) s = Returns ?s'"
    by (rule carve_success[OF assms(1,3)])
  have n: "unat (PAGE_SIZE div class_size k) = 2 ^ (8 - k)"
    by (rule blocks_per_page[OF assms(3)])
  have notin: "block_at ?p (class_size k) 0 \<notin> set (map (block_at ?p (class_size k)) [1..<2 ^ (8 - k)])"
  proof
    assume "block_at ?p (class_size k) 0 \<in> set (map (block_at ?p (class_size k)) [1..<2 ^ (8 - k)])"
    then obtain j where j: "1 \<le> j" "j < 2 ^ (8 - k)"
      and e: "block_at ?p (class_size k) 0 = block_at ?p (class_size k) j"
      by auto
    have "block_at ?p (class_size k) 0 \<noteq> block_at ?p (class_size k) j"
      using j by (intro block_at_inj[OF assms(2,3)]) simp_all
    then show False using e by simp
  qed
  have fill: "(2 :: nat) ^ (8 - k) * 2 ^ (k + 4) = 4096"
    using assms(3) by (simp add: power_add[symmetric])
  show ?thesis
  proof (intro exI[of _ ?s'] conjI allI impI)
    show "carve e k (class_size k) s = Returns ?s'" by (rule c)
    show "slab_header (mem ?s') ?p (class_size k)"
      by (simp add: carved_mem_header[OF assms(2)])
    show "lists ?s' k = block_at ?p (class_size k) 1" by simp
    show "lists ?s' j = lists s j" if "j \<noteq> k" for j using that by simp
    show "chain (mem ?s') (lists ?s' k)
            (map (block_at ?p (class_size k)) [1..<unat (PAGE_SIZE div class_size k)])"
      unfolding n using carved_mem_chain[OF assms(2,3), of "mem s"] by simp
    show "block_at ?p (class_size k) 0
            \<notin> set (map (block_at ?p (class_size k)) [1..<unat (PAGE_SIZE div class_size k)])"
      unfolding n by (rule notin)
    show "unat (PAGE_SIZE div class_size k) * unat (class_size k) = 4096"
      unfolding n unat_class_size[OF assms(3)] by (rule fill)
    show "mem ?s' x = mem s x" if "4096 \<le> x - ?p" for x
      using carved_mem_outside[OF assms(2,3) that] by simp
    show "xxmalloc e sz s =
            Returns (lists ?s' k, ?s'\<lparr>lists := (lists ?s')(k := load64 (mem ?s') (lists ?s' k))\<rparr>)"
      if "sz \<le> 2048 \<and> size_class sz = k \<and> lists s k = NULL"
      using that by (simp add: xxmalloc_small c)
  qed
qed

theorem carve_threads_page_witness:
  "mmap_ret example_env \<noteq> MAP_FAILED \<and> mmap_ret example_env mod PAGE_SIZE = 0 \<and> (6 :: nat) < 8
   \<and> (\<exists>s'. carve example_env 6 (class_size 6) init_state = Returns s'
          \<and> slab_header (mem s') 0x10000 1024
          \<and> lists s' 6 = 0x10400
          \<and> chain (mem s') (lists s' 6) [0x10400, 0x10800, 0x10C00]
          \<and> xxmalloc example_env 1000 init_state =
                 Returns (lists s' 6, s'\<lparr>lists := (lists s')(6 := load64 (mem s') (lists s' 6))\<rparr>))"
  using carve_threads_page [of example_env 6 init_state 1000]
  by (simp add: example_env_def class_size_def block_at_def upt_rec size_class_def init_state_lists)
     (elim exE conjE, intro exI conjI; assumption)

subsection \<open>Free lists\<close>

lemma nodes_from_null: "nodes_from m NULL = {}"
proof -
  have "False" if "a \<in> nodes_from m NULL" for a
    using that by (induction rule: nodes_from.induct) simp_all
  then show ?thesis by auto
qed

lemma nodes_from_next:
  assumes "a \<in> nodes_from m (load64 m h)" and "h \<noteq> NULL"
  shows "a \<in> nodes_from m h"
  using assms(1)
proof (induction rule: nodes_from.induct)
  case head
  then show ?case by (intro nodes_from.step nodes_from.head assms(2))
next
  case (step a)
  then show ?case by (intro nodes_from.step)
qed

lemma nodes_from_unfold:
  assumes "a \<in> nodes_from m h"
  shows "a = h \<or> a \<in> nodes_from m (load64 m h)"
  using assms
proof (induction rule: nodes_from.induct)
  case head
  then show ?case by simp
next
  case (step a)
  then show ?case by (auto intro: nodes_from.head nodes_from.step)
qed

lemma nodes_from_frame:
  assumes "\<And>a. a \<in> nodes_from m h \<Longrightarrow> load64 m' a = load64 m a"
    and "a \<in> nodes_from m' h"
  shows "a \<in> nodes_from m h"
  using assms(2)
proof (induction rule: nodes_from.induct)
  case head
  then show ?case by (rule nodes_from.head)
next
  case (step a)
  then have "load64 m a \<noteq> NULL" using assms(1)[of a] by simp
  then have "load64 m a \<in> nodes_from m h" using step.IH by (rule nodes_from.step[rotated])
  then show ?case using assms(1)[OF step.IH] by simp
qed

lemma chain_nodes:
  assumes "chain m h as" and "a \<in> nodes_from m h"
  shows "a \<in> set as"
  using assms
proof (induction as arbitrary: h)
  case Nil
  then show ?case by (simp add: nodes_from_null)
next
  case (Cons x xs)
  then have c: "chain m (load64 m h) xs" and h: "h = x" by simp_all
  from nodes_from_unfold[OF Cons.prems(2)] show ?case
  proof
    assume "a = h" then show ?thesis using h by simp
  next
    assume "a \<in> nodes_from m (load64 m h)"
    then show ?thesis using Cons.IH[OF c] by simp
  qed
qed

subsection \<open>Memories that agree on a page\<close>

lemma in_page_offset:
  assumes "i < 4096"
  shows "(pg :: 64 word) + of_nat i - pg < PAGE_SIZE"
  using assms by (simp add: word_less_nat_alt unat_of_nat)

lemma in_page_cell:
  fixes a :: "64 word"
  assumes "a mod 8 = 0" and "i < 8"
  shows "a + of_nat i - page_base a < PAGE_SIZE"
proof -
  have "unat a mod 8 = 0" using assms(1) by (simp add: word_mod_0_iff)
  then obtain c where c: "unat a = 8 * c" by (rule mod_0_multiple)
  have "unat a mod 4096 = 8 * (c mod 512)"
    using mult_mod_right[of 8 c 512] by (simp add: c)
  moreover have "c mod 512 < 512" by simp
  ultimately have r: "unat a mod 4096 \<le> 4088" by linarith
  have e: "a + of_nat i - page_base a = a mod 4096 + of_nat i"
    by (simp add: page_base_def)
  have i: "unat (of_nat i :: 64 word) = i" using assms(2) by (simp add: unat_of_nat)
  have "unat (a mod 4096 + of_nat i) = unat a mod 4096 + i"
    using r assms(2) by (simp add: unat_add64 unat_mod i)
  then show ?thesis
    unfolding e using r assms(2) by (simp add: word_less_nat_alt)
qed

lemma agree_load64:
  assumes "agree_on_page m m' (page_base a)" and "a mod 8 = 0"
  shows "load64 m' a = load64 m a"
proof (rule load64_cong)
  fix i :: nat assume "i < 8"
  then have "a + of_nat i - page_base a < PAGE_SIZE" by (rule in_page_cell[OF assms(2)])
  then show "m' (a + of_nat i) = m (a + of_nat i)"
    using assms(1) by (simp add: agree_on_page_def)
qed

lemma agree_header:
  assumes "agree_on_page m m' pg"
  shows "load32 m' pg = load32 m pg" and "load64 m' (pg + 8) = load64 m (pg + 8)"
proof -
  have b: "m' (pg + of_nat i) = m (pg + of_nat i)" if "i < 4096" for i
    using assms in_page_offset[OF that, of pg] by (simp add: agree_on_page_def)
  show "load32 m' pg = load32 m pg"
    by (rule load32_cong) (simp add: b)
  show "load64 m' (pg + 8) = load64 m (pg + 8)"
  proof (rule load64_cong)
    fix i :: nat assume "i < 8"
    then have "m' (pg + of_nat (8 + i)) = m (pg + of_nat (8 + i))" by (intro b) simp
    moreover have "pg + 8 + of_nat i = pg + of_nat (8 + i)" by simp
    ultimately show "m' (pg + 8 + of_nat i) = m (pg + 8 + of_nat i)" by (simp only:)
  qed
qed

lemma agree_slab_header:
  assumes "agree_on_page m m' pg"
  shows "slab_header m' pg bs = slab_header m pg bs"
  by (simp add: slab_header_def agree_header[OF assms])

lemma class_size_mod8:
  fixes a :: "64 word"
  assumes "k < 8" and "a mod class_size k = 0"
  shows "a mod 8 = 0"
proof -
  have "unat a mod 2 ^ (k + 4) = 0"
    using assms(2) by (simp add: word_mod_0_iff unat_class_size[OF assms(1)])
  then have "(2 :: nat) ^ (k + 4) dvd unat a" by (rule mod_0_imp_dvd)
  moreover have "(8 :: nat) dvd 2 ^ (k + 4)" by (simp add: power_add)
  ultimately have "8 dvd unat a" by (rule dvd_trans[rotated])
  then show ?thesis by (simp add: word_mod_0_iff)
qed

lemma node_ok_agree:
  assumes "node_ok m k a" and "agree_on_page m m' (page_base a)"
  shows "node_ok m' k a"
  using assms by (simp add: node_ok_def agree_slab_header)

subsection \<open>Distinct pages\<close>

lemma aligned_sub:
  fixes a b :: "64 word"
  assumes "a mod PAGE_SIZE = 0" and "b mod PAGE_SIZE = 0"
  shows "(a - b) mod PAGE_SIZE = 0"
proof -
  obtain A where A: "unat a = 4096 * A" "A < 4503599627370496"
    using assms(1) by (rule aligned_obtain)
  obtain B where B: "unat b = 4096 * B" "B < 4503599627370496"
    using assms(2) by (rule aligned_obtain)
  have 1: "4096 * A - 4096 * B = 4096 * (A - B)" by simp
  have 2: "4096 * A + 18446744073709551616 - 4096 * B = 4096 * (A + 4503599627370496 - B)" by simp
  show ?thesis
    unfolding word_mod_0_iff unat_sub64 A B by (simp only: 1 2 split: if_split) simp
qed

lemma aligned_nonzero:
  fixes d :: "64 word"
  assumes "d mod PAGE_SIZE = 0" and "d \<noteq> 0"
  shows "4096 \<le> unat d"
proof -
  obtain D where D: "unat d = 4096 * D" "D < 4503599627370496"
    using assms(1) by (rule aligned_obtain)
  have "unat d \<noteq> 0" using assms(2) by (simp add: unat_eq_zero)
  then show ?thesis unfolding D by simp
qed

lemma pages_disjoint:
  fixes a b x :: "64 word"
  assumes "a mod PAGE_SIZE = 0" and "b mod PAGE_SIZE = 0" and "a \<noteq> b" and "x - a < PAGE_SIZE"
  shows "4096 \<le> x - b"
proof -
  have w: "unat (x - a) < 4096" using assms(4) by (simp add: word_less_nat_alt)
  have e: "x - b = (a - b) + of_nat (unat (x - a))" by simp
  have "unat (x - b) = unat (a - b) + unat (x - a)"
    unfolding e by (rule unat_page_offset[OF aligned_sub[OF assms(1,2)] w])
  moreover have "4096 \<le> unat (a - b)"
    by (rule aligned_nonzero[OF aligned_sub[OF assms(1,2)]]) (use assms(3) in simp)
  ultimately show ?thesis by (simp add: word_le_nat_alt)
qed

lemma region_inside:
  fixes p pg L :: "64 word"
  assumes "p mod PAGE_SIZE = 0" and "pg mod PAGE_SIZE = 0" and "L mod PAGE_SIZE = 0"
    and "pg - p < L" and "i < 4096"
  shows "pg + of_nat i - p < L"
proof -
  obtain D where D: "unat (pg - p) = 4096 * D" "D < 4503599627370496"
    using aligned_sub[OF assms(2,1)] by (rule aligned_obtain)
  obtain L' where L: "unat L = 4096 * L'" "L' < 4503599627370496"
    using assms(3) by (rule aligned_obtain)
  have e: "pg + of_nat i - p = (pg - p) + of_nat i" by simp
  have u: "unat (pg + of_nat i - p) = unat (pg - p) + i"
    unfolding e by (rule unat_page_offset[OF aligned_sub[OF assms(2,1)] assms(5)])
  have "4096 * D < 4096 * L'" using assms(4) by (simp add: word_less_nat_alt D L)
  then have "D < L'" by simp
  then have "4096 * D + i < 4096 * L'" using assms(5) by linarith
  then show ?thesis by (simp add: word_less_nat_alt u D L)
qed

lemma region_outside:
  fixes p pg L x :: "64 word"
  assumes "p mod PAGE_SIZE = 0" and "pg mod PAGE_SIZE = 0"
    and "L \<le> pg - p" and "x - pg < PAGE_SIZE"
  shows "L \<le> x - p"
proof -
  have w: "unat (x - pg) < 4096" using assms(4) by (simp add: word_less_nat_alt)
  have e: "x - p = (pg - p) + of_nat (unat (x - pg))" by simp
  have "unat (x - p) = unat (pg - p) + unat (x - pg)"
    unfolding e by (rule unat_page_offset[OF aligned_sub[OF assms(2,1)] w])
  then show ?thesis using assms(3) by (simp add: word_le_nat_alt)
qed

lemma ROUND_UP_aligned: "ROUND_UP sz PAGE_SIZE mod PAGE_SIZE = 0"
proof -
  have "(4096 :: nat) dvd ((unat sz + 4095) div 4096 * 4096) mod 18446744073709551616"
    by (rule dvd_mod) simp_all
  then show ?thesis by (simp add: word_mod_0_iff unat_ROUND_UP)
qed

lemma load32_zero_memory: "load32 (\<lambda>_. 0) a = 0"
  by (simp add: load32_def upt4)

subsection \<open>\<^verbatim>\<open>xxmalloc\<close> keeps states well formed\<close>

lemma wf_state_init: "wf_state init_state"
  by (simp add: wf_state_def init_state_def nodes_from_null load32_zero_memory)

lemma wf_nodes_frame:
  assumes k: "k < 8"
    and ok: "\<And>a. a \<in> nodes_from m h \<Longrightarrow> node_ok m k a"
    and agree: "\<And>a. a \<in> nodes_from m h \<Longrightarrow> agree_on_page m m' (page_base a)"
    and a: "a \<in> nodes_from m' h"
  shows "node_ok m' k a"
proof -
  have "load64 m' b = load64 m b" if "b \<in> nodes_from m h" for b
  proof (rule agree_load64[OF agree[OF that]])
    show "b mod 8 = 0"
      using ok[OF that] by (intro class_size_mod8[OF k]) (simp add: node_ok_def)
  qed
  then have "a \<in> nodes_from m h" using a by (rule nodes_from_frame)
  then show ?thesis by (intro node_ok_agree[OF ok agree])
qed

lemma fresh_agree:
  assumes "fresh_mapping e len s" and "k < 8" and "a \<in> nodes_from (mem s) (lists s k)"
    and "\<And>x. len \<le> x - mmap_ret e \<Longrightarrow> m' x = mem s x"
  shows "agree_on_page (mem s) m' (page_base a)"
  using assms unfolding agree_on_page_def fresh_mapping_def by blast

lemma wf_pop:
  assumes wf: "wf_state s" and k: "k < 8" and h: "lists s k \<noteq> NULL"
  shows "wf_state (s\<lparr>lists := (lists s)(k := load64 (mem s) (lists s k))\<rparr>)"
proof -
  have "node_ok (mem s) j a"
    if "j < 8" and "a \<in> nodes_from (mem s) (((lists s)(k := load64 (mem s) (lists s k))) j)" for j a
  proof (cases "j = k")
    case True
    then have "a \<in> nodes_from (mem s) (lists s k)"
      using that(2) h by (auto intro: nodes_from_next)
    then show ?thesis using wf k True by (simp add: wf_state_def)
  next
    case False
    then show ?thesis using wf that by (simp add: wf_state_def)
  qed
  then show ?thesis using wf by (simp add: wf_state_def)
qed

lemma carved_node_ok:
  assumes p: "p mod PAGE_SIZE = 0" "0 \<le>s p" and k: "k < 8" and j: "0 < j" "j < 2 ^ (8 - k)"
  shows "node_ok (carved_mem p k m) k (block_at p (class_size k) j)"
  unfolding node_ok_def
  by (simp add: block_at_sle[OF p k j(2)] block_at_aligned[OF p(1) k j(2)]
      block_at_not_page_start[OF p(1) k j(2,1)] block_at_page[OF p(1) k j(2)]
      carved_mem_header[OF p(1)])

lemma wf_carve:
  assumes wf: "wf_state s" and e: "mmap_ok e" and fresh: "fresh_mapping e PAGE_SIZE s" and k: "k < 8"
  shows "wf_state (s\<lparr>lists := (lists s)(k := block_at (mmap_ret e) (class_size k) 1),
                     mem := carved_mem (mmap_ret e) k (mem s)\<rparr>)"
proof -
  let ?p = "mmap_ret e"
  let ?M = "carved_mem ?p k (mem s)"
  have p: "?p mod PAGE_SIZE = 0" "0 \<le>s ?p" using e by (simp_all add: mmap_ok_def)
  have out: "?M x = mem s x" if "4096 \<le> x - ?p" for x
    by (rule carved_mem_outside[OF p(1) k that])
  have nodes: "node_ok ?M j a"
    if j: "j < 8" and a: "a \<in> nodes_from ?M (((lists s)(k := block_at ?p (class_size k) 1)) j)" for j a
  proof (cases "j = k")
    case True
    then have "a \<in> nodes_from ?M (block_at ?p (class_size k) 1)" using a by simp
    then have "a \<in> set (map (block_at ?p (class_size k)) [1..<2 ^ (8 - k)])"
      by (rule chain_nodes[OF carved_mem_chain[OF p(1) k]])
    then obtain i where i': "Suc 0 \<le> i" and i2: "i < 2 ^ (8 - k)"
      and ai: "a = block_at ?p (class_size k) i"
      by auto
    have i: "0 < i" "i < 2 ^ (8 - k)" using i' i2 by simp_all
    show ?thesis unfolding ai True by (rule carved_node_ok[OF p k i])
  next
    case False
    then have a': "a \<in> nodes_from ?M (lists s j)" using a by simp
    show ?thesis
    proof (rule wf_nodes_frame[OF j _ _ a'])
      fix b assume b: "b \<in> nodes_from (mem s) (lists s j)"
      show "node_ok (mem s) j b" using wf j b by (simp add: wf_state_def)
      show "agree_on_page (mem s) ?M (page_base b)"
        by (rule fresh_agree[OF fresh j b]) (simp add: out)
    qed
  qed
  have tagged: "\<exists>c<8. load64 ?M (pg + 8) = class_size c"
    if pg: "pg mod PAGE_SIZE = 0" and t: "load32 ?M pg = MAGIC" for pg
  proof (cases "pg = ?p")
    case True
    then show ?thesis
      using carved_mem_header[OF p(1), of k "mem s"] k by (auto simp: slab_header_def)
  next
    case False
    have ag: "agree_on_page (mem s) ?M pg"
      unfolding agree_on_page_def
    proof (intro allI impI)
      fix x assume "x - pg < PAGE_SIZE"
      then have "4096 \<le> x - ?p" by (rule pages_disjoint[OF pg p(1) False])
      then show "?M x = mem s x" by (rule out)
    qed
    have "load32 (mem s) pg = MAGIC" using t by (simp add: agree_header[OF ag])
    then have "\<exists>c<8. load64 (mem s) (pg + 8) = class_size c"
      using wf pg by (simp add: wf_state_def)
    then show ?thesis by (simp add: agree_header[OF ag])
  qed
  show ?thesis
    unfolding wf_state_def using nodes tagged by simp
qed

lemma wf_large:
  assumes wf: "wf_state s" and e: "mmap_ok e" and fresh: "fresh_mapping e L s"
    and L: "L mod PAGE_SIZE = 0"
  shows "wf_state (s\<lparr>mem := \<lambda>x. if x - mmap_ret e < L then 0 else mem s x\<rparr>)"
proof -
  let ?p = "mmap_ret e"
  let ?M = "\<lambda>x. if x - ?p < L then 0 else mem s x"
  have p: "?p mod PAGE_SIZE = 0" using e by (simp add: mmap_ok_def)
  have nodes: "node_ok ?M j a" if j: "j < 8" and a: "a \<in> nodes_from ?M (lists s j)" for j a
  proof (rule wf_nodes_frame[OF j _ _ a])
    fix b assume b: "b \<in> nodes_from (mem s) (lists s j)"
    show "node_ok (mem s) j b" using wf j b by (simp add: wf_state_def)
    show "agree_on_page (mem s) ?M (page_base b)"
      by (rule fresh_agree[OF fresh j b]) (simp add: not_less[symmetric])
  qed
  have tagged: "\<exists>c<8. load64 ?M (pg + 8) = class_size c"
    if pg: "pg mod PAGE_SIZE = 0" and t: "load32 ?M pg = MAGIC" for pg
  proof (cases "pg - ?p < L")
    case True
    have "load32 ?M pg = 0"
    proof (rule load32_zero)
      fix i :: nat assume "i < 4"
      then have "pg + of_nat i - ?p < L"
        by (intro region_inside[OF p pg L True]) simp
      then show "?M (pg + of_nat i) = 0" by simp
    qed
    then show ?thesis using t by simp
  next
    case False
    then have le: "L \<le> pg - ?p" by (simp add: not_less)
    have ag: "agree_on_page (mem s) ?M pg"
      unfolding agree_on_page_def
    proof (intro allI impI)
      fix x assume "x - pg < PAGE_SIZE"
      then have "L \<le> x - ?p" by (rule region_outside[OF p pg le])
      then show "?M x = mem s x" by (simp add: not_less[symmetric])
    qed
    have "load32 (mem s) pg = MAGIC" using t by (simp only: agree_header[OF ag])
    then have "\<exists>c<8. load64 (mem s) (pg + 8) = class_size c"
      using wf pg by (simp add: wf_state_def)
    then show ?thesis by (simp only: agree_header[OF ag])
  qed
  show ?thesis
    unfolding wf_state_def using nodes tagged by simp
qed

lemma two_blocks:
  fixes k :: nat
  assumes "k < 8"
  shows "1 < (2 :: nat) ^ (8 - k)"
proof -
  have "(2 :: nat) ^ 1 \<le> 2 ^ (8 - k)" using assms by (intro power_increasing) simp_all
  then show ?thesis by simp
qed

lemma first_block_nonnull:
  assumes "mmap_ok e" and "k < 8"
  shows "block_at (mmap_ret e) (class_size k) 1 \<noteq> NULL"
  using assms(1) by (intro block_at_nonnull[OF _ assms(2) two_blocks[OF assms(2)]]) (simp_all add: mmap_ok_def)

lemma mmap_ok_not_failed: "mmap_ok e \<Longrightarrow> mmap_ret e \<noteq> MAP_FAILED"
  by (auto simp: mmap_ok_def)

lemma xxmalloc_wf:
  assumes wf: "wf_state s" and e: "mmap_ok e" and fresh: "fresh_mapping e (mapping_length sz) s"
    and r: "xxmalloc e sz s = Returns (a, s')"
  shows "wf_state s'"
proof (cases "2048 < sz")
  case True
  have "s' = s\<lparr>mem := \<lambda>x. if x - mmap_ret e < ROUND_UP sz PAGE_SIZE then 0 else mem s x\<rparr>"
    using r mmap_ok_not_failed[OF e] by (auto simp: xxmalloc_large[OF True])
  moreover have "fresh_mapping e (ROUND_UP sz PAGE_SIZE) s"
    using fresh True by (simp add: mapping_length_def)
  ultimately show ?thesis
    using wf_large[OF wf e _ ROUND_UP_aligned] by simp
next
  case False
  then have small: "sz \<le> 2048" by (simp add: not_less)
  let ?k = "size_class sz"
  have k: "?k < 8" by (rule size_class_less)
  have fresh': "fresh_mapping e PAGE_SIZE s"
    using fresh False by (simp add: mapping_length_def)
  show ?thesis
  proof (cases "lists s ?k = NULL")
    case True
    let ?s1 = "s\<lparr>lists := (lists s)(?k := block_at (mmap_ret e) (class_size ?k) 1),
                   mem := carved_mem (mmap_ret e) ?k (mem s)\<rparr>"
    have wf1: "wf_state ?s1" by (rule wf_carve[OF wf e fresh' k])
    have nz: "lists ?s1 ?k \<noteq> NULL"
      using first_block_nonnull[OF e k] by simp
    have "s' = ?s1\<lparr>lists := (lists ?s1)(?k := load64 (mem ?s1) (lists ?s1 ?k))\<rparr>"
      using r True by (auto simp: xxmalloc_small[OF small] carve_success[OF mmap_ok_not_failed[OF e] k])
    then show ?thesis using wf_pop[OF wf1 k nz] by simp
  next
    case False
    have "s' = s\<lparr>lists := (lists s)(?k := load64 (mem s) (lists s ?k))\<rparr>"
      using r False by (auto simp: xxmalloc_small[OF small])
    then show ?thesis using wf_pop[OF wf k False] by simp
  qed
qed

subsection \<open>The start of the block a pointer lies in\<close>

lemma class_size_inj:
  assumes "j < 8" and "c < 8" and "class_size j = class_size c"
  shows "j = c"
proof -
  have "unat (class_size j) = unat (class_size c)" by (simp only: assms(3))
  then have "(2 :: nat) ^ (j + 4) = 2 ^ (c + 4)"
    by (simp only: unat_class_size[OF assms(1)] unat_class_size[OF assms(2)])
  then have "j + 4 = c + 4" by (rule power_inject_exp[THEN iffD1, rotated]) simp
  then show ?thesis by simp
qed

lemma class_size_mod16:
  fixes a :: "64 word"
  assumes "k < 8" and "a mod class_size k = 0"
  shows "a mod 16 = 0"
proof -
  have "unat a mod 2 ^ (k + 4) = 0"
    using assms(2) by (simp add: word_mod_0_iff unat_class_size[OF assms(1)])
  then have "(2 :: nat) ^ (k + 4) dvd unat a" by (rule mod_0_imp_dvd)
  moreover have "(16 :: nat) dvd 2 ^ (k + 4)" by (simp add: power_add)
  ultimately have "16 dvd unat a" by (rule dvd_trans[rotated])
  then show ?thesis by (simp add: word_mod_0_iff)
qed

lemma unat_block_start:
  assumes "k < 8"
  shows "unat (ptr - ptr mod class_size k) = unat ptr - unat ptr mod 2 ^ (k + 4)"
  by (simp add: unat_sub64 unat_mod unat_class_size[OF assms])

lemma page_factor:
  fixes k :: nat
  assumes "k < 8"
  shows "(4096 :: nat) = 2 ^ (k + 4) * 2 ^ (8 - k)"
  using assms by (simp add: power_add[symmetric])

lemma nat_block_start:
  fixes q r B c :: nat
  assumes "r < B"
  shows "B * q - (B * q) mod (B * c) = (B * q + r) - (B * q + r) mod (B * c)"
    and "B \<le> (B * q + r) mod (B * c) \<Longrightarrow> (B * q) mod (B * c) \<noteq> 0"
proof -
  have bm: "(B * q) mod (B * c) = B * (q mod c)" by (rule mult_mod_right[symmetric])
  have d: "(B * q + r) div B = q" and md: "(B * q + r) mod B = r" using assms by simp_all
  have m: "(B * q + r) mod (B * c) = B * (q mod c) + r"
    by (simp only: mod_mult2_eq d md)
  have "q mod c \<le> q" by (rule mod_less_eq_dividend)
  then have le: "B * (q mod c) \<le> B * q" by (rule mult_le_mono2)
  show "B * q - (B * q) mod (B * c) = (B * q + r) - (B * q + r) mod (B * c)"
    unfolding bm m using le by linarith
  assume "B \<le> (B * q + r) mod (B * c)"
  then have "B \<le> B * (q mod c) + r" by (simp only: m)
  then show "(B * q) mod (B * c) \<noteq> 0"
    unfolding bm using assms by linarith
qed

lemma block_start_facts:
  assumes k: "k < 8"
  shows "(ptr - ptr mod class_size k) mod class_size k = 0"
    and "0 \<le>s ptr \<Longrightarrow> 0 \<le>s ptr - ptr mod class_size k"
    and "page_base (ptr - ptr mod class_size k) = page_base ptr"
    and "class_size k \<le> ptr mod PAGE_SIZE \<Longrightarrow> (ptr - ptr mod class_size k) mod PAGE_SIZE \<noteq> 0"
proof -
  define X B q r where "X = unat ptr" and "B = (2 :: nat) ^ (k + 4)"
    and "q = X div B" and "r = X mod B"
  have B: "0 < B" by (simp add: B_def)
  have r: "r < B" using B by (simp add: r_def)
  have X: "X = B * q + r" by (simp add: q_def r_def)
  have u: "unat (ptr - ptr mod class_size k) = B * q"
    unfolding unat_block_start[OF k] X_def[symmetric] B_def[symmetric]
    by (simp add: q_def minus_mod_eq_mult_div)
  have pf: "4096 = B * 2 ^ (8 - k)" unfolding B_def by (rule page_factor[OF k])
  have "unat ((ptr - ptr mod class_size k) mod class_size k) = 0"
    unfolding unat_mod u unat_class_size[OF k] B_def[symmetric] by simp
  then show "(ptr - ptr mod class_size k) mod class_size k = 0"
    by (simp only: unat_eq_zero)
  show "0 \<le>s ptr - ptr mod class_size k" if "0 \<le>s ptr"
  proof -
    have "B * q \<le> X" unfolding X by simp
    then show ?thesis using that unfolding sle_iff u X_def by linarith
  qed
  have "unat (page_base (ptr - ptr mod class_size k)) = unat (page_base ptr)"
    unfolding unat_page_base u X_def[symmetric] pf X by (rule nat_block_start(1)[OF r])
  then show "page_base (ptr - ptr mod class_size k) = page_base ptr"
    by (simp only: word_unat_eq_iff)
  show "(ptr - ptr mod class_size k) mod PAGE_SIZE \<noteq> 0" if "class_size k \<le> ptr mod PAGE_SIZE"
  proof -
    have "unat (class_size k) \<le> unat (ptr mod PAGE_SIZE)"
      using that by (simp only: word_le_nat_alt)
    then have "B \<le> X mod 4096"
      unfolding unat_mod unat_class_size[OF k] B_def[symmetric] X_def[symmetric] by simp
    then have "B \<le> (B * q + r) mod (B * 2 ^ (8 - k))" unfolding pf X .
    then have "(B * q) mod (B * 2 ^ (8 - k)) \<noteq> 0" by (rule nat_block_start(2)[OF r])
    then have "unat ((ptr - ptr mod class_size k) mod PAGE_SIZE) \<noteq> 0"
      unfolding unat_mod u pf[symmetric] by simp
    then show ?thesis by (simp only: unat_eq_zero not_False_eq_True)
  qed
qed

subsection \<open>\<^verbatim>\<open>xxfree\<close> keeps states well formed\<close>

lemma mod_differs:
  fixes a b n :: "64 word"
  assumes "a mod n \<noteq> 0" and "b mod n = 0"
  shows "a \<noteq> b"
proof
  assume "a = b"
  then have "a mod n = b mod n" by (rule arg_cong)
  then show False using assms by (simp only:)
qed

lemma store64_keeps_headers:
  fixes blk pg :: "64 word"
  assumes b16: "blk mod 16 = 0" and bp: "blk mod PAGE_SIZE \<noteq> 0" and pg: "pg mod PAGE_SIZE = 0"
  shows "load32 (store64 m blk v) pg = load32 m pg"
    and "load64 (store64 m blk v) (pg + 8) = load64 m (pg + 8)"
proof -
  have "unat blk mod 16 = 0" using b16 by (simp add: word_mod_0_iff)
  then obtain c where c: "unat blk = 16 * c" by (rule mod_0_multiple)
  have b8: "blk mod 8 = 0" by (simp add: word_mod_0_iff c)
  obtain A where A: "unat pg = 4096 * A" "A < 4503599627370496"
    using pg by (rule aligned_obtain)
  have ne: "blk \<noteq> pg" by (rule mod_differs[OF bp pg])
  have "unat (pg + 8) = 4096 * A + 8"
    using unat_page_offset[OF pg, of 8] A by simp
  moreover have "16 * c \<noteq> 4096 * A + 8"
  proof
    assume "16 * c = 4096 * A + 8"
    then have "(16 * c) mod 16 = (16 * (256 * A) + 8) mod 16" by simp
    then show False by (simp only: mod_mult_self4 mod_mult_self1_is_0) simp
  qed
  ultimately have ne8: "blk \<noteq> pg + 8" using c by auto
  show "load32 (store64 m blk v) pg = load32 m pg"
    by (rule load32_store64_other[OF b8 header_size_cell(2)[OF pg] ne])
  show "load64 (store64 m blk v) (pg + 8) = load64 m (pg + 8)"
    by (rule load64_store64_other[OF b8 header_size_cell(1)[OF pg] ne8])
qed

lemma nodes_from_push:
  assumes al: "\<And>b. b \<in> nodes_from m cur \<Longrightarrow> b mod 8 = 0" and blk: "blk mod 8 = 0"
    and a: "a \<in> nodes_from (store64 m blk cur) blk"
  shows "a = blk \<or> a \<in> nodes_from m cur"
  using a
proof (induction rule: nodes_from.induct)
  case head
  then show ?case by simp
next
  case (step a)
  show ?case
  proof (cases "a = blk")
    case True
    then have "load64 (store64 m blk cur) a = cur" by (simp add: load64_store64_same)
    then show ?thesis using step.hyps(2) by (auto intro: nodes_from.head)
  next
    case False
    then have a: "a \<in> nodes_from m cur" using step.IH by simp
    have "load64 (store64 m blk cur) a = load64 m a"
      by (rule load64_store64_other[OF blk al[OF a]]) (use False in simp)
    then show ?thesis using step.hyps(2) a by (auto intro: nodes_from.step)
  qed
qed

lemma xxfree_wf:
  assumes wf: "wf_state s" and nn: "0 \<le>s ptr" and nh: "\<not> header_block s ptr"
  shows "\<exists>s'. xxfree ptr s = Returns s' \<and> wf_state s'"
proof (cases "ptr = NULL \<or> load32 (mem s) (page_of ptr) \<noteq> MAGIC")
  case True
  then have "xxfree ptr s = Returns s" by (auto simp: xxfree_def Let_def)
  then show ?thesis using wf by simp
next
  case False
  let ?m = "mem s"
  have pp: "page_of ptr = page_base ptr" by (rule page_of_nonneg[OF nn])
  have nz: "ptr \<noteq> NULL" and tag: "load32 ?m (page_base ptr) = MAGIC"
    using False by (simp_all add: pp)
  have "\<exists>k<8. load64 ?m (page_base ptr + 8) = class_size k"
    using wf tag page_base_aligned[of ptr] by (simp add: wf_state_def)
  then obtain c where c: "c < 8" and sz: "load64 ?m (page_base ptr + 8) = class_size c"
    by blast
  let ?blk = "ptr - ptr mod class_size c"
  let ?cur = "lists s c"
  let ?m' = "store64 ?m ?blk ?cur"
  let ?s' = "s\<lparr>lists := (lists s)(c := ?blk), mem := ?m'\<rparr>"
  have hdr: "slab_header ?m (page_of ptr) (class_size c)"
    by (simp add: slab_header_def pp tag sz)
  have run: "xxfree ptr s = Returns ?s'" by (rule xxfree_slab[OF nz hdr c])
  have "class_size c \<le> ptr mod PAGE_SIZE"
    using nh nz tag by (simp add: header_block_def sz not_less)
  then have bp: "?blk mod PAGE_SIZE \<noteq> 0" by (rule block_start_facts(4)[OF c])
  have bc: "?blk mod class_size c = 0" by (rule block_start_facts(1)[OF c])
  have b16: "?blk mod 16 = 0" by (rule class_size_mod16[OF c bc])
  have b8: "?blk mod 8 = 0" by (rule class_size_mod8[OF c bc])
  have bpg: "page_base ?blk = page_base ptr" by (rule block_start_facts(3)[OF c])
  have keep: "slab_header ?m' pg bs = slab_header ?m pg bs" if "pg mod PAGE_SIZE = 0" for pg bs
    by (simp add: slab_header_def store64_keeps_headers[OF b16 bp that])
  have ok_keep: "node_ok ?m' j a" if "node_ok ?m j a" for j a
    using that by (simp add: node_ok_def keep[OF page_base_aligned])
  have old: "node_ok ?m j a" if "j < 8" and "a \<in> nodes_from ?m (lists s j)" for j a
    using wf that by (simp add: wf_state_def)
  have blk_ok: "node_ok ?m c ?blk"
    unfolding node_ok_def
    using block_start_facts(2)[OF c nn] bc bp by (simp add: bpg slab_header_def tag sz)
  have nodes: "node_ok ?m' j a"
    if j: "j < 8" and a: "a \<in> nodes_from ?m' (((lists s)(c := ?blk)) j)" for j a
  proof (cases "j = c")
    case True
    then have "a \<in> nodes_from ?m' ?blk" using a by simp
    then have "a = ?blk \<or> a \<in> nodes_from ?m ?cur"
    proof (rule nodes_from_push[rotated 2])
      fix b assume "b \<in> nodes_from ?m ?cur"
      then have "node_ok ?m c b" by (rule old[OF c])
      then show "b mod 8 = 0" by (intro class_size_mod8[OF c]) (simp add: node_ok_def)
    qed (rule b8)
    then have "node_ok ?m c a" using blk_ok old[OF c] by auto
    then show ?thesis unfolding True by (rule ok_keep)
  next
    case False
    then have a': "a \<in> nodes_from ?m' (lists s j)" using a by simp
    have "load64 ?m' b = load64 ?m b" if b: "b \<in> nodes_from ?m (lists s j)" for b
    proof (rule load64_store64_other[OF b8])
      have okb: "node_ok ?m j b" by (rule old[OF j b])
      then show "b mod 8 = 0" by (intro class_size_mod8[OF j]) (simp add: node_ok_def)
      show "?blk \<noteq> b"
      proof
        assume e: "?blk = b"
        have "slab_header ?m (page_base ptr) (class_size j)"
          using okb by (simp add: node_ok_def e[symmetric] bpg)
        then have "class_size j = class_size c" by (simp add: slab_header_def sz)
        then show False using False class_size_inj[OF j c] by simp
      qed
    qed
    then have "a \<in> nodes_from ?m (lists s j)" using a' by (rule nodes_from_frame)
    then show ?thesis by (intro ok_keep old[OF j])
  qed
  have tagged: "\<exists>k<8. load64 ?m' (pg + 8) = class_size k"
    if pg: "pg mod PAGE_SIZE = 0" and t: "load32 ?m' pg = MAGIC" for pg
    using wf pg t by (simp add: wf_state_def store64_keeps_headers[OF b16 bp pg])
  have "wf_state ?s'"
    unfolding wf_state_def using nodes tagged by simp
  with run show ?thesis by blast
qed

subsection \<open>What \<^verbatim>\<open>xxmalloc\<close> returns for a small request\<close>

lemma node_ok_usable_size:
  assumes "node_ok (mem s) k a"
  shows "xxmalloc_usable_size a s = class_size k"
proof -
  have nn: "0 \<le>s a" and np: "a mod PAGE_SIZE \<noteq> 0"
    and h: "slab_header (mem s) (page_base a) (class_size k)"
    using assms by (simp_all add: node_ok_def)
  have "a \<noteq> NULL" using np by auto
  then show ?thesis
    using h by (simp add: xxmalloc_usable_size_def page_of_nonneg[OF nn] slab_header_def)
qed

lemma xxmalloc_small_node:
  assumes wf: "wf_state s" and e: "mmap_ok e" and small: "sz \<le> 2048"
  shows "\<exists>s'. xxmalloc e sz s =
           Returns (if lists s (size_class sz) = NULL
                    then block_at (mmap_ret e) (class_size (size_class sz)) 1
                    else lists s (size_class sz), s')
         \<and> node_ok (mem s')
              (size_class sz)
              (if lists s (size_class sz) = NULL
               then block_at (mmap_ret e) (class_size (size_class sz)) 1
               else lists s (size_class sz))"
proof -
  let ?k = "size_class sz"
  have k: "?k < 8" by (rule size_class_less)
  have p: "mmap_ret e mod PAGE_SIZE = 0" "0 \<le>s mmap_ret e" using e by (simp_all add: mmap_ok_def)
  show ?thesis
  proof (cases "lists s ?k = NULL")
    case True
    have "node_ok (carved_mem (mmap_ret e) ?k (mem s)) ?k (block_at (mmap_ret e) (class_size ?k) 1)"
      by (rule carved_node_ok[OF p k _ two_blocks[OF k]]) simp
    then show ?thesis
      using True by (simp add: xxmalloc_small[OF small] carve_success[OF mmap_ok_not_failed[OF e] k])
  next
    case False
    then have "lists s ?k \<in> nodes_from (mem s) (lists s ?k)" by (rule nodes_from.head)
    then have "node_ok (mem s) ?k (lists s ?k)" using wf k by (simp add: wf_state_def)
    then show ?thesis
      using False by (simp add: xxmalloc_small[OF small])
  qed
qed

lemma size_class_least:
  assumes "x \<le> 2048"
  shows "max (unat x) 16 \<le> 2 ^ (size_class x + 4)"
    and "max (unat x) 16 \<le> 2 ^ j \<Longrightarrow> size_class x + 4 \<le> j"
proof -
  have "(2 :: nat) ^ 4 \<le> 2 ^ (size_class x + 4)" by (intro power_increasing) simp_all
  then show "max (unat x) 16 \<le> 2 ^ (size_class x + 4)"
    using size_class_bounds(1)[OF assms] by simp
  assume j: "max (unat x) 16 \<le> 2 ^ j"
  show "size_class x + 4 \<le> j"
  proof (cases "size_class x = 0")
    case True
    have "(2 :: nat) ^ 4 \<le> 2 ^ j" using j by simp
    then have "4 \<le> j" by (rule power_le_imp_le_exp[rotated]) simp
    then show ?thesis using True by simp
  next
    case False
    then have "2 ^ (size_class x + 3) < unat x"
      by (intro size_class_bounds(2)[OF assms]) simp
    moreover have "unat x \<le> 2 ^ j" using j by simp
    ultimately have "(2 :: nat) ^ (size_class x + 3) < 2 ^ j" by (rule less_le_trans)
    then have "size_class x + 3 < j" by (rule power_less_imp_less_exp[rotated]) simp
    then show ?thesis by simp
  qed
qed

lemma mmap_ok_example: "mmap_ok example_env"
  by (simp add: mmap_ok_def example_env_def word_sle_eq)

text \<open>
  C1. In a well-formed state, with a page source that returns page-aligned addresses of the
  lower half, every request of at most 2048 bytes returns. \<^verbatim>\<open>round_power_2\<close> selects the class
  whose block size is the smallest power of two that is at least \<open>max(size, 16)\<close>; the block
  comes from that class (the head of its free list, or block 1 of a page carved for it); and
  \<^verbatim>\<open>xxmalloc_usable_size\<close> of the returned pointer is that class's block size.
\<close>

theorem small_usable_size:
  assumes "wf_state s" and "mmap_ok e" and "sz \<le> 2048"
  shows "\<exists>a s'. xxmalloc e sz s = Returns (a, s')
           \<and> round_power_2 sz = Some (of_nat (size_class sz + 4))
           \<and> a = (if lists s (size_class sz) = NULL
                    then block_at (mmap_ret e) (class_size (size_class sz)) 1
                    else lists s (size_class sz))
           \<and> xxmalloc_usable_size a s' = class_size (size_class sz)
           \<and> unat (class_size (size_class sz)) = 2 ^ (size_class sz + 4)
           \<and> max (unat sz) 16 \<le> 2 ^ (size_class sz + 4)
           \<and> (\<forall>j. max (unat sz) 16 \<le> 2 ^ j \<longrightarrow> size_class sz + 4 \<le> j)"
proof -
  obtain s' where r: "xxmalloc e sz s =
           Returns (if lists s (size_class sz) = NULL
                    then block_at (mmap_ret e) (class_size (size_class sz)) 1
                    else lists s (size_class sz), s')"
    and ok: "node_ok (mem s') (size_class sz)
              (if lists s (size_class sz) = NULL
               then block_at (mmap_ret e) (class_size (size_class sz)) 1
               else lists s (size_class sz))"
    using xxmalloc_small_node[OF assms] by blast
  show ?thesis
    using r node_ok_usable_size[OF ok] round_power_2_size_class[OF assms(3)]
      unat_class_size[OF size_class_less, of sz] size_class_least[OF assms(3)]
    by blast
qed

theorem small_usable_size_witness:
  "wf_state init_state \<and> mmap_ok example_env \<and> (100 :: 64 word) \<le> 2048
   \<and> (\<exists>a s'. xxmalloc example_env 100 init_state = Returns (a, s')
          \<and> round_power_2 100 = Some 7
          \<and> a = 0x10080
          \<and> xxmalloc_usable_size a s' = 128)"
  using small_usable_size [OF wf_state_init mmap_ok_example, of 100] wf_state_init mmap_ok_example
  by (auto simp: size_class_def class_size_def block_at_def init_state_lists example_env_def)

text \<open>
  C6. In a well-formed state, with a page source that returns page-aligned addresses of the
  lower half, \<^verbatim>\<open>xxmalloc\<close> returns, and the address is a multiple of the class's block size
  for a request of at most 2048 bytes; for a larger request it is the address \<^verbatim>\<open>mmap\<close>
  returned, a multiple of the page size.
\<close>

theorem allocation_alignment:
  assumes "wf_state s" and "mmap_ok e"
  shows "\<exists>a s'. xxmalloc e sz s = Returns (a, s')
           \<and> (if sz \<le> 2048 then a mod class_size (size_class sz) = 0
               else a = mmap_ret e \<and> a mod PAGE_SIZE = 0)"
proof (cases "sz \<le> 2048")
  case True
  define A where "A = (if lists s (size_class sz) = NULL
                       then block_at (mmap_ret e) (class_size (size_class sz)) 1
                       else lists s (size_class sz))"
  obtain s' where r: "xxmalloc e sz s = Returns (A, s')"
    and ok: "node_ok (mem s') (size_class sz) A"
    using xxmalloc_small_node[OF assms True] unfolding A_def by blast
  have al: "A mod class_size (size_class sz) = 0"
    using ok by (simp only: node_ok_def)
  show ?thesis
    by (rule exI[of _ A], rule exI[of _ s']) (simp add: r al True)
next
  case False
  then have "2048 < sz" by (simp add: not_le)
  then show ?thesis
    using assms(2) False mmap_ok_not_failed[OF assms(2)]
    by (simp add: xxmalloc_large mmap_ok_def)
qed

theorem allocation_alignment_witness:
  "wf_state init_state \<and> mmap_ok example_env
   \<and> (\<exists>a s'. xxmalloc example_env 100 init_state = Returns (a, s') \<and> a mod 128 = 0)
   \<and> (\<exists>a s'. xxmalloc example_env 3000 init_state = Returns (a, s') \<and> a mod PAGE_SIZE = 0)"
  using allocation_alignment [OF wf_state_init mmap_ok_example, of 100]
    allocation_alignment [OF wf_state_init mmap_ok_example, of 3000]
    wf_state_init mmap_ok_example
  by (auto simp: size_class_def class_size_def example_env_def)

subsection \<open>Reachable states\<close>

lemma wf_lists_agree: "wf_state s \<Longrightarrow> lists_agree s"
  by (simp add: wf_state_def lists_agree_def node_ok_def)

lemma reachable_wf: "reachable s \<Longrightarrow> wf_state s"
proof (induction rule: reachable.induct)
  case start
  show ?case by (rule wf_state_init)
next
  case (malloc s e sz a s')
  then show ?case by (intro xxmalloc_wf[of s e sz a s'])
next
  case (free s ptr s')
  then show ?case using xxfree_wf[of s ptr] by auto
qed

lemma fresh_no_nodes:
  assumes "\<And>k. lists s k = NULL"
  shows "fresh_mapping e len s"
  by (simp add: fresh_mapping_def assms nodes_from_null)

lemma reachable_example_slab: "reachable example_slab"
  by (rule reachable.malloc[OF reachable.start mmap_ok_example _ example_malloc])
     (rule fresh_no_nodes, rule init_state_lists)

text \<open>
  C5, as amended. In every state reached from the start of the process by calls of
  \<^verbatim>\<open>xxmalloc\<close> (with a page source that returns fresh page-aligned mappings) and by calls of
  \<^verbatim>\<open>xxfree\<close> on pointers that do not point into the header block of a slab page, every node
  of the free list of class \<open>i\<close> lies in a page whose header carries the tag and the block
  size \<open>2 ^ (i + 4)\<close>; each such call of \<^verbatim>\<open>xxmalloc\<close> that returns, and each such call of
  \<^verbatim>\<open>xxfree\<close>, which always returns, leads to a state of this kind again.
\<close>

theorem lists_agree_invariant:
  assumes "reachable s"
  shows "lists_agree s
       \<and> (mmap_ok e \<and> fresh_mapping e (mapping_length sz) s \<and> xxmalloc e sz s = Returns (a, s')
            \<longrightarrow> reachable s' \<and> lists_agree s')
       \<and> (0 \<le>s ptr \<and> \<not> header_block s ptr
            \<longrightarrow> (\<exists>s''. xxfree ptr s = Returns s'' \<and> reachable s'' \<and> lists_agree s''))"
proof (intro conjI impI)
  show "lists_agree s" by (intro wf_lists_agree reachable_wf assms)
next
  assume h: "mmap_ok e \<and> fresh_mapping e (mapping_length sz) s \<and> xxmalloc e sz s = Returns (a, s')"
  then have r: "reachable s'" using assms by (auto intro: reachable.malloc)
  then show "reachable s'" .
  show "lists_agree s'" by (intro wf_lists_agree reachable_wf r)
next
  assume h: "0 \<le>s ptr \<and> \<not> header_block s ptr"
  then obtain s'' where f: "xxfree ptr s = Returns s''"
    using xxfree_wf[OF reachable_wf[OF assms], of ptr] by blast
  have r: "reachable s''" using assms h f by (auto intro: reachable.free)
  show "\<exists>s''. xxfree ptr s = Returns s'' \<and> reachable s'' \<and> lists_agree s''"
    using f r wf_lists_agree[OF reachable_wf[OF r]] by blast
qed

lemma example_slab_free_ok: "0 \<le>s (0x10805 :: addr)" "\<not> header_block example_slab 0x10805"
  by (simp_all add: word_sle_eq header_block_def page_base_def example_slab_header)

theorem lists_agree_invariant_witness:
  "reachable example_slab
   \<and> lists_agree example_slab
   \<and> mmap_ok second_env \<and> fresh_mapping second_env (mapping_length 100) example_slab
   \<and> (\<exists>a s'. xxmalloc second_env 100 example_slab = Returns (a, s') \<and> lists_agree s')
   \<and> 0 \<le>s (0x10805 :: addr) \<and> \<not> header_block example_slab 0x10805
   \<and> (\<exists>s''. xxfree 0x10805 example_slab = Returns s'' \<and> lists_agree s'')"
proof -
  have ok: "mmap_ok second_env"
    by (simp add: mmap_ok_def second_env_def word_sle_eq)
  have fresh: "fresh_mapping second_env (mapping_length 100) example_slab"
    by (rule fresh_no_nodes) (rule example_slab_lists)
  obtain a s' where r: "xxmalloc second_env 100 example_slab = Returns (a, s')"
    using xxmalloc_small_node[OF reachable_wf[OF reachable_example_slab] ok, of 100] by auto
  show ?thesis
    using lists_agree_invariant [OF reachable_example_slab, of second_env 100 a s' "0x10805"]
      reachable_example_slab ok fresh r example_slab_free_ok
    by blast
qed

lemma corrupting_free: "xxfree 0x10004 example_slab = Returns corrupted_slab"
proof -
  have "slab_header (mem example_slab) (page_of 0x10004) (class_size 7)"
    by (simp add: slab_header_def page_of_example example_slab_header class_size_def)
  then have "xxfree 0x10004 example_slab =
      Returns (example_slab\<lparr>lists := (lists example_slab)(7 := 0x10004 - 0x10004 mod class_size 7),
                 mem := store64 (mem example_slab) (0x10004 - 0x10004 mod class_size 7) (lists example_slab 7)\<rparr>)"
    by (intro xxfree_slab) simp_all
  then show ?thesis
    by (simp add: corrupted_slab_def class_size_def example_slab_lists)
qed

lemma corrupted_slab_tag: "load32 (mem corrupted_slab) 0x10000 = 0"
  by (simp add: corrupted_slab_def load32_def store64_def upt4)

theorem lists_agree_counterexample:
  "xxmalloc example_env 2048 init_state = Returns (0x10800, example_slab)
   \<and> lists_agree example_slab
   \<and> xxfree 0x10004 example_slab = Returns corrupted_slab
   \<and> \<not> lists_agree corrupted_slab"
proof (intro conjI)
  show "xxmalloc example_env 2048 init_state = Returns (0x10800, example_slab)"
    by (rule example_malloc)
  show "lists_agree example_slab"
    by (intro wf_lists_agree reachable_wf reachable_example_slab)
  show "xxfree 0x10004 example_slab = Returns corrupted_slab"
    by (rule corrupting_free)
  show "\<not> lists_agree corrupted_slab"
  proof
    assume a: "lists_agree corrupted_slab"
    have l: "lists corrupted_slab 7 = 0x10000" by (simp add: corrupted_slab_def)
    have "0x10000 \<in> nodes_from (mem corrupted_slab) (lists corrupted_slab 7)"
      unfolding l by (rule nodes_from.head) simp
    then have "slab_header (mem corrupted_slab) (page_base 0x10000) (class_size 7)"
      using a unfolding lists_agree_def by simp
    then show False
      by (simp add: slab_header_def page_base_def corrupted_slab_tag)
  qed
qed

section \<open>Foreign pointers\<close>

text \<open>
  With every address readable and writable the checked functions are the unchecked ones,
  and whenever a checked function returns, the unchecked one returns the same.
\<close>

lemma accessible_all: "accessible (\<lambda>_. True) a n"
  by (simp add: accessible_def list_all_iff)

lemma xxmalloc_usable_size_mapped_all:
  "xxmalloc_usable_size_mapped (\<lambda>_. True) ptr s = Returns (xxmalloc_usable_size ptr s)"
  by (simp add: xxmalloc_usable_size_mapped_def xxmalloc_usable_size_def accessible_all Let_def)

lemma xxfree_mapped_all: "xxfree_mapped (\<lambda>_. True) (\<lambda>_. True) ptr s = xxfree ptr s"
  by (simp add: xxfree_mapped_def xxfree_def xxmalloc_usable_size_mapped_all accessible_all Let_def
      split: option.splits)

lemma xxmalloc_usable_size_mapped_returns:
  assumes "xxmalloc_usable_size_mapped R ptr s = Returns v"
  shows "v = xxmalloc_usable_size ptr s"
  using assms
  by (simp add: xxmalloc_usable_size_mapped_def xxmalloc_usable_size_def Let_def split: if_splits)

lemma xxfree_mapped_returns:
  assumes "xxfree_mapped R W ptr s = Returns s'"
  shows "xxfree ptr s = Returns s'"
proof (cases "ptr = NULL \<or> load32 (mem s) (page_of ptr) \<noteq> MAGIC")
  case True
  then show ?thesis
    using assms by (auto simp: xxfree_mapped_def xxfree_def Let_def split: if_splits)
next
  case False
  then have nz: "ptr \<noteq> NULL" and tag: "load32 (mem s) (page_of ptr) = MAGIC" by simp_all
  have rd: "accessible R (page_of ptr) 4"
    using assms nz by (simp add: xxfree_mapped_def Let_def split: if_splits)
  obtain v where v: "xxmalloc_usable_size_mapped R ptr s = Returns v"
    using assms nz tag rd
    by (cases "xxmalloc_usable_size_mapped R ptr s") (simp_all add: xxfree_mapped_def Let_def)
  have e: "xxmalloc_usable_size ptr s = v"
    using xxmalloc_usable_size_mapped_returns[OF v] by simp
  show ?thesis
    using assms nz tag rd
    by (auto simp: xxfree_mapped_def xxfree_def Let_def v e split: if_splits option.splits)
qed

lemma example_large_malloc:
  "xxmalloc example_env 3000 init_state = Returns (0x10000, example_large)"
  by (simp add: xxmalloc_large example_env_def example_large_def)

lemma example_large_mapped:
  "accessible (mmap_region example_env (mapping_length 3000)) (page_of 0x10004) 4"
  by (simp add: accessible_def upt4 page_of_example mmap_region_def mapping_length_def ROUND_UP_def
      example_env_def)

lemma example_large_untagged: "load32 (mem example_large) (page_of 0x10004) \<noteq> MAGIC"
  by (simp add: page_of_example example_large_def init_state_def load32_def upt4)

text \<open>
  C7, as amended. Releasing \<^verbatim>\<open>NULL\<close> returns with the whole state unchanged, and so does
  releasing a pointer whose page (as \<^verbatim>\<open>xxfree\<close> computes it, which for an address in the lower
  half of the address space is the page that contains it) is readable where the tag would be
  and does not start with the tag; \<^verbatim>\<open>xxmalloc_usable_size\<close> returns 0 in both cases. When
  the first four bytes of that page are not readable, both functions trap on the read of
  \<^verbatim>\<open>page->magic\<close> instead of returning.
\<close>

theorem foreign_pointer_ignored:
  "xxfree_mapped R W NULL s = Returns s
   \<and> xxmalloc_usable_size_mapped R NULL s = Returns 0
   \<and> (accessible R (page_of ptr) 4 \<and> load32 (mem s) (page_of ptr) \<noteq> MAGIC \<longrightarrow>
        xxfree_mapped R W ptr s = Returns s \<and> xxmalloc_usable_size_mapped R ptr s = Returns 0)
   \<and> (ptr \<noteq> NULL \<and> \<not> accessible R (page_of ptr) 4 \<longrightarrow>
        xxfree_mapped R W ptr s = Fault \<and> xxmalloc_usable_size_mapped R ptr s = Fault)
   \<and> (0 \<le>s ptr \<longrightarrow> page_of ptr = page_base ptr)"
  by (simp add: xxfree_mapped_def xxmalloc_usable_size_mapped_def Let_def page_of_nonneg)

text \<open>
  The theorem at a pointer into the large object that \<^verbatim>\<open>xxmalloc(3000)\<close> mapped at
  \<open>0x10000\<close>: the page is mapped and carries no tag.
\<close>

theorem foreign_pointer_ignored_witness:
  "xxmalloc example_env 3000 init_state = Returns (0x10000, example_large)
   \<and> accessible (mmap_region example_env (mapping_length 3000)) (page_of 0x10004) 4
   \<and> load32 (mem example_large) (page_of 0x10004) \<noteq> MAGIC
   \<and> 0 \<le>s (0x10004 :: addr)
   \<and> xxfree_mapped (mmap_region example_env (mapping_length 3000))
        (mmap_region example_env (mapping_length 3000)) NULL example_large
         = Returns example_large
   \<and> xxfree_mapped (mmap_region example_env (mapping_length 3000))
        (mmap_region example_env (mapping_length 3000)) 0x10004 example_large
         = Returns example_large
   \<and> xxmalloc_usable_size_mapped (mmap_region example_env (mapping_length 3000)) 0x10004
        example_large
         = Returns 0
   \<and> page_of 0x10004 = page_base 0x10004"
  using foreign_pointer_ignored
          [of "mmap_region example_env (mapping_length 3000)"
              "mmap_region example_env (mapping_length 3000)" example_large "0x10004"]
    example_large_malloc example_large_mapped example_large_untagged
  by (simp add: word_sle_eq)

text \<open>
  The same pointer in a fresh process, where nothing is mapped at \<open>0x10000\<close>: the page does
  not begin with the tag, and neither call returns.
\<close>

theorem foreign_pointer_counterexample:
  "load32 (mem init_state) (page_of 0x10004) \<noteq> MAGIC
   \<and> xxfree_mapped unmapped unmapped 0x10004 init_state = Fault
   \<and> xxfree_mapped unmapped unmapped 0x10004 init_state \<noteq> Returns init_state
   \<and> xxmalloc_usable_size_mapped unmapped 0x10004 init_state = Fault
   \<and> xxmalloc_usable_size_mapped unmapped 0x10004 init_state \<noteq> Returns 0"
  by (simp add: xxfree_mapped_def xxmalloc_usable_size_mapped_def Let_def accessible_def upt4
      unmapped_def init_state_def load32_def)

end
